theory Spec2Isabelle
  imports Complex_Main "HOL-Library.Word" "HOL-Library.Log_Nat"
begin

unbundle bit_operations_syntax

section \<open>The CD+G decoder of libCDG.cpp\<close>

text \<open>
  A shallow embedding of \<^verbatim>\<open>CdgParser\<close> (src/OpenKJ/libCDG/src/libCDG.cpp). The member
  variables of the class are the fields of the record \<open>CdgParser\<close>; a method takes the
  object and returns it updated. The header libCDG.h is not among the sources: what
  the code uses of it (constants, payload structs and their constructors) is either modelled
  from the specification, and marked so, or taken as a parameter.

  A call of the source can do something other than return: \<^verbatim>\<open>std::vector::at\<close> throws
  \<^verbatim>\<open>std::out_of_range\<close> for an index that is not below the size; the conversion of a
  floating-point value to an integer type that cannot hold it is undefined; \<^verbatim>\<open>memcpy\<close>
  between overlapping ranges is undefined; an access outside the object a pointer points
  into is undefined. Each of these is a value of the type \<open>error\<close>, and a function that
  can do one of them returns a sum, \<open>Inl\<close> the error; \<open>and_then\<close> sequences two such
  calls and \<open>foldE\<close> is a loop over them, both stopping at the first error.
\<close>

datatype error = OutOfRange nat | UndefinedConversion | OverlappingCopy | OutOfBounds nat

definition and_then :: "error + 'a \<Rightarrow> ('a \<Rightarrow> error + 'b) \<Rightarrow> error + 'b" where
  "and_then r f = (case r of Inl e \<Rightarrow> Inl e | Inr v \<Rightarrow> f v)"

fun foldE :: "('a \<Rightarrow> 's \<Rightarrow> error + 's) \<Rightarrow> 'a list \<Rightarrow> 's \<Rightarrow> error + 's" where
  "foldE f [] s = Inr s"
| "foldE f (x # xs) s = and_then (f x s) (foldE f xs)"

subsection \<open>Bytes, buffers and images\<close>

type_synonym byte = "8 word"
type_synonym QRgb = "32 word"

text \<open>
  A byte buffer is a store from offsets (relative to the buffer's base pointer) to bytes,
  and \<open>memset\<close> is the C library function on such a store.
\<close>

type_synonym buffer = "nat \<Rightarrow> byte"

definition memset :: "buffer \<Rightarrow> nat \<Rightarrow> byte \<Rightarrow> nat \<Rightarrow> buffer" where
  "memset b off c n = (\<lambda>a. if off \<le> a \<and> a < off + n then c else b a)"

text \<open>
  \<^verbatim>\<open>m_image\<close> is created in \<^verbatim>\<open>reset()\<close> as a 300 x 216 image of format Indexed8 and never
  resized: one byte per pixel, 300 bytes per scan line, \<open>bits\<close> is the pixel buffer and
  \<open>scanLine line\<close> the offset of a line in it.
\<close>

record QImage =
  colorTable :: "QRgb list"
  bits :: buffer

definition bytesPerLine :: nat where
  "bytesPerLine = 300"

definition scanLine :: "nat \<Rightarrow> nat" where
  "scanLine line = line * bytesPerLine"

definition fill :: "byte \<Rightarrow> QImage \<Rightarrow> QImage" where
  "fill pixel img = img\<lparr>bits := memset (bits img) 0 pixel (bytesPerLine * 216)\<rparr>"

text \<open>
  The objects the code copies between with \<^verbatim>\<open>memcpy\<close>: the pixel buffer of \<^verbatim>\<open>m_image\<close>
  (300 x 216 bytes), the pixel buffer of the 288 x 192 image that \<^verbatim>\<open>getSafeArea()\<close>
  builds, and the local arrays of \<^verbatim>\<open>cmdScroll\<close>, \<^verbatim>\<open>unsigned char* tmpPixels[6]\<close> and
  \<^verbatim>\<open>unsigned char* tmpLines[3600]\<close> (arrays of pointers, 8 bytes each). A pointer is an
  object and an offset in it; the memory holds the contents of every object.

  \<open>memcpy dst src n\<close> is the C library function. It is undefined when one of the two
  ranges of \<open>n\<close> bytes leaves its object and when the two ranges overlap; otherwise the
  destination range receives the bytes of the source range.
\<close>

datatype object = ImageBits | SafeAreaBits | TmpPixels | TmpLines

type_synonym pointer = "object \<times> nat"
type_synonym memory = "object \<Rightarrow> buffer"

definition object_size :: "object \<Rightarrow> nat" where
  "object_size obj =
     (case obj of ImageBits \<Rightarrow> bytesPerLine * 216 | SafeAreaBits \<Rightarrow> 288 * 192
      | TmpPixels \<Rightarrow> 6 * 8 | TmpLines \<Rightarrow> 3600 * 8)"

definition memcpy :: "pointer \<Rightarrow> pointer \<Rightarrow> nat \<Rightarrow> memory \<Rightarrow> error + memory" where
  "memcpy dst src n mem =
     (if object_size (fst dst) < snd dst + n then Inl (OutOfBounds (snd dst + n))
      else if object_size (fst src) < snd src + n then Inl (OutOfBounds (snd src + n))
      else if fst dst = fst src \<and> snd dst < snd src + n \<and> snd src < snd dst + n
      then Inl OverlappingCopy
      else Inr (mem(fst dst := (\<lambda>a. if snd dst \<le> a \<and> a < snd dst + n
                                     then mem (fst src) (snd src + (a - snd dst))
                                     else mem (fst dst) a))))"

text \<open>
  The memory a method works on: the pixel buffer of \<^verbatim>\<open>m_image\<close> as the object holds it;
  the other objects are created by the method, and written before they are read.
\<close>

definition image_memory :: "QImage \<Rightarrow> memory" where
  "image_memory img = (\<lambda>obj a. 0)(ImageBits := bits img)"

text \<open>
  A video frame is built from the safe-area image converted to RGB32. The conversion is
  Qt's and a function of the indexed image and its colour table, which is what the model
  keeps, next to the start time.
\<close>

record QVideoFrame =
  frameImage :: QImage
  startTime :: nat

subsection \<open>What libCDG.h declares\<close>

text \<open>
  Modelled from the spec: the constants of libCDG.h. A packet is a CDG command when the low
  6 bits of its command byte are 9; the instruction codes are those of the spec's dispatch
  table (1, 2, 6, 20, 24, 28, 30 and 31); \<open>m_masks\<close> selects the six pixels of a tile row
  from the most significant bit on. The table has no code for the XOR tile block, which the
  dispatcher handles too: that code is part of the parameter below.
\<close>

definition m_subcodeMask :: byte where "m_subcodeMask = 0x3F"
definition m_subcodeCommand :: byte where "m_subcodeCommand = 0x09"
definition CmdMemoryPreset :: byte where "CmdMemoryPreset = 1"
definition CmdBorderPreset :: byte where "CmdBorderPreset = 2"
definition CmdTileBlock :: byte where "CmdTileBlock = 6"
definition CmdScrollPreset :: byte where "CmdScrollPreset = 20"
definition CmdScrollCopy :: byte where "CmdScrollCopy = 24"
definition CmdDefineTrans :: byte where "CmdDefineTrans = 28"
definition CmdColorsLow :: byte where "CmdColorsLow = 30"
definition CmdColorsHigh :: byte where "CmdColorsHigh = 31"

definition m_masks :: "byte list" where
  "m_masks = [0x20, 0x10, 0x08, 0x04, 0x02, 0x01]"

datatype ScrollType = ScrollPreset | ScrollCopy
datatype TileBlockType = TileBlockNormal | TileBlockXOR
datatype CdgColorTables = LowColors | HighColors

text \<open>
  The payload structs, with the fields the code reads. Several structs of the source have a
  field \<^verbatim>\<open>color\<close>; a record field is a constant of the theory, so the fields carry the
  struct's initials here.
\<close>

record CdgMemoryPresetData =
  mp_color :: byte
  mp_repeat :: byte

record CdgBorderPresetData =
  bp_color :: byte

record CdgTileBlockData =
  tb_color0 :: byte
  tb_color1 :: byte
  tb_top :: nat
  tb_left :: nat
  tilePixels :: "nat \<Rightarrow> byte"

record CdgScrollCmdData =
  sc_color :: byte
  hSCmd :: nat
  hSOffset :: nat
  vSCmd :: nat
  vSOffset :: nat

record CdgColorsData =
  colors :: "nat \<Rightarrow> QRgb"

text \<open>
  Modelled from the spec: the constructor \<^verbatim>\<open>cdg::CdgMemoryPresetData(data)\<close> of libCDG.h.
  The colour is the low 4 bits of payload byte 0 and the repeat count the low 4 bits of
  payload byte 1.
\<close>

definition MemoryPresetData :: "(nat \<Rightarrow> byte) \<Rightarrow> CdgMemoryPresetData" where
  "MemoryPresetData data = \<lparr>mp_color = data 0 AND 0x0F, mp_repeat = data 1 AND 0x0F\<rparr>"

text \<open>
  The rest of what the code uses of libCDG.h: the instruction code of the XOR tile block
  and the other payload constructors. The specification names the fields of the payloads
  but not the bits they are read from, so the decoder takes all of this as a parameter.
\<close>

record cdg_header =
  CmdTileBlockXOR :: byte
  BorderPresetData :: "(nat \<Rightarrow> byte) \<Rightarrow> CdgBorderPresetData"
  TileBlockData :: "(nat \<Rightarrow> byte) \<Rightarrow> CdgTileBlockData"
  ScrollCmdData :: "(nat \<Rightarrow> byte) \<Rightarrow> CdgScrollCmdData"
  ColorsData :: "(nat \<Rightarrow> byte) \<Rightarrow> CdgColorsData"

text \<open>
  One value of the parameter, for concrete inputs: the payload layout of the CD+G packet
  format, where the XOR tile block has code 38. A 4-bit colour is the low nibble of its
  byte; a tile block gives row and column in bytes 2 and 3 and its twelve pixel rows in
  bytes 4 to 15; a scroll command gives the coarse command in bits 4 and 5 and the fine
  offset in the low bits of bytes 1 and 2; a colour entry is 12 bits over two bytes, four
  bits per channel, each widened by 17.
\<close>

definition cdg_format :: cdg_header where
  "cdg_format =
     \<lparr>CmdTileBlockXOR = 38,
      BorderPresetData = (\<lambda>data. \<lparr>bp_color = data 0 AND 0x0F\<rparr>),
      TileBlockData = (\<lambda>data.
        \<lparr>tb_color0 = data 0 AND 0x0F,
         tb_color1 = data 1 AND 0x0F,
         tb_top = unat (data 2 AND 0x1F) * 12,
         tb_left = unat (data 3 AND 0x3F) * 6,
         tilePixels = (\<lambda>y. data (4 + y) AND 0x3F)\<rparr>),
      ScrollCmdData = (\<lambda>data.
        \<lparr>sc_color = data 0 AND 0x0F,
         hSCmd = unat (drop_bit 4 (data 1 AND 0x30)),
         hSOffset = unat (data 1 AND 0x07),
         vSCmd = unat (drop_bit 4 (data 2 AND 0x30)),
         vSOffset = unat (data 2 AND 0x0F)\<rparr>),
      ColorsData = (\<lambda>data.
        \<lparr>colors = (\<lambda>k.
           let hi = data (2 * k) AND 0x3F;
               lo = data (2 * k + 1) AND 0x3F;
               r = ucast (drop_bit 2 hi AND 0x0F) * 17;
               g = ucast (push_bit 2 (hi AND 0x03) OR drop_bit 4 (lo AND 0x30)) * 17;
               b = ucast (lo AND 0x0F) * 17
           in 0xFF000000 OR push_bit 16 r OR push_bit 8 g OR b)\<rparr>)\<rparr>"

text \<open>
  \<^verbatim>\<open>cdg::CDG_SubCode\<close> is the 24 bytes of a packet as \<^verbatim>\<open>process()\<close> reads them into the
  struct: the command byte, the instruction byte, two bytes of Q parity, 16 bytes of data
  and four bytes of P parity.
\<close>

type_synonym CDG_SubCode = "nat \<Rightarrow> byte"

definition command :: "CDG_SubCode \<Rightarrow> byte" where
  "command subCode = subCode 0"

definition instruction :: "CDG_SubCode \<Rightarrow> byte" where
  "instruction subCode = subCode 1"

definition data :: "CDG_SubCode \<Rightarrow> nat \<Rightarrow> byte" where
  "data subCode = (\<lambda>i. subCode (4 + i))"

subsection \<open>The decoder state\<close>

text \<open>
  Counters and offsets are natural numbers (the packet count of an input, at most
  \<open>2 ^ 31 / 24\<close>, is far below the range of their C++ types); \<^verbatim>\<open>m_tempo\<close> is an
  \<^verbatim>\<open>int\<close> that \<^verbatim>\<open>setTempo\<close> sets to any value, a 32-bit word read with \<open>sint\<close>.
\<close>

record CdgParser =
  m_isOpen :: bool
  m_needupdate :: bool
  m_lastCmdWasMempreset :: bool
  m_lastCDGCommandMS :: nat
  m_position :: nat
  m_curHOffset :: nat
  m_curVOffset :: nat
  m_cdgData :: "byte list"
  m_image :: QImage
  m_frames :: "QVideoFrame list"
  m_skip :: "bool list"
  m_tempo :: "32 word"

text \<open>
  \<^verbatim>\<open>reset()\<close> computes three more members from the image format, always to the same values
  (Indexed8 has 8 bits per pixel); they are constants here.
\<close>

definition m_bytesPerPixel :: nat where
  "m_bytesPerPixel = 8 div 8"

definition m_borderLRBytes :: nat where
  "m_borderLRBytes = m_bytesPerPixel * 6"

definition m_borderRBytesOffset :: nat where
  "m_borderRBytesOffset = 294 * m_bytesPerPixel"

definition reset :: "CdgParser \<Rightarrow> CdgParser" where
  "reset d =
     d\<lparr>m_isOpen := False,
       m_needupdate := True,
       m_lastCmdWasMempreset := False,
       m_lastCDGCommandMS := 0,
       m_position := 0,
       m_curHOffset := 0,
       m_curVOffset := 0,
       m_cdgData := [],
       m_image := fill 0 \<lparr>colorTable = replicate 16 0xFF000000, bits = (\<lambda>a. 0)\<rparr>,
       m_frames := [],
       m_skip := [],
       m_tempo := 100\<rparr>"

text \<open>\<^verbatim>\<open>open(const QByteArray &, const bool &bypassReset)\<close>; the result is the object and
  the returned flag.\<close>

definition open_bytes :: "byte list \<Rightarrow> bool \<Rightarrow> CdgParser \<Rightarrow> CdgParser \<times> bool" where
  "open_bytes byteArray bypassReset d =
     (let d1 = (if \<not> bypassReset then reset d else d);
          d2 = d1\<lparr>m_cdgData := byteArray\<rparr>
      in if length byteArray = 0 then (d2, False) else (d2, True))"

text \<open>
  The constructor calls \<^verbatim>\<open>reset()\<close>. The members are indeterminate before and \<^verbatim>\<open>reset()\<close>
  assigns every one of them, so the record it is applied to here is arbitrary.
\<close>

definition CdgParser_new :: CdgParser where
  "CdgParser_new =
     reset \<lparr>m_isOpen = False, m_needupdate = False, m_lastCmdWasMempreset = False,
            m_lastCDGCommandMS = 0, m_position = 0, m_curHOffset = 0, m_curVOffset = 0,
            m_cdgData = [], m_image = \<lparr>colorTable = [], bits = (\<lambda>a. 0)\<rparr>,
            m_frames = [], m_skip = [], m_tempo = 0\<rparr>"

subsection \<open>The command handlers\<close>

definition cmdMemoryPreset :: "CdgMemoryPresetData \<Rightarrow> CdgParser \<Rightarrow> CdgParser" where
  "cmdMemoryPreset memoryPreset d =
     (if m_lastCmdWasMempreset d \<and> mp_repeat memoryPreset \<noteq> 0 then d
      else d\<lparr>m_image := fill (mp_color memoryPreset) (m_image d), m_needupdate := True\<rparr>)"

definition borderLine :: "byte \<Rightarrow> nat \<Rightarrow> buffer \<Rightarrow> buffer" where
  "borderLine c line b =
     (if line < 12 \<or> 202 < line then memset b (scanLine line) c bytesPerLine
      else memset (memset b (scanLine line) c m_borderLRBytes)
             (scanLine line + m_borderRBytesOffset) c m_borderLRBytes)"

definition cmdBorderPreset :: "CdgBorderPresetData \<Rightarrow> CdgParser \<Rightarrow> CdgParser" where
  "cmdBorderPreset borderPreset d =
     d\<lparr>m_image := (m_image d)\<lparr>bits :=
          fold (borderLine (bp_color borderPreset)) [0..<216] (bits (m_image d))\<rparr>,
       m_needupdate := True\<rparr>"

definition tilePixel :: "CdgTileBlockData \<Rightarrow> byte \<Rightarrow> nat \<Rightarrow> byte" where
  "tilePixel tileBlockPacket rowData k =
     (if rowData AND (m_masks ! k) \<noteq> 0 then tb_color1 tileBlockPacket
      else tb_color0 tileBlockPacket)"

text \<open>
  \<^verbatim>\<open>cmdTileBlock\<close> writes through \<^verbatim>\<open>m_image.scanLine(y + top)\<close> plus the column with no
  check of either: a write at an offset that is not below the size of the pixel buffer is
  outside the object.
\<close>

definition tileRow ::
    "CdgTileBlockData \<Rightarrow> TileBlockType \<Rightarrow> nat \<Rightarrow> buffer \<Rightarrow> error + buffer" where
  "tileRow tileBlockPacket type y b =
     (let ptr = scanLine (y + tb_top tileBlockPacket);
          rowData = tilePixels tileBlockPacket y
      in foldE (\<lambda>k b'.
            let a = ptr + (tb_left tileBlockPacket + k) * m_bytesPerPixel
            in if object_size ImageBits \<le> a then Inl (OutOfBounds a)
               else Inr (case type of
                  TileBlockXOR \<Rightarrow> b'(a := b' a XOR tilePixel tileBlockPacket rowData k)
                | TileBlockNormal \<Rightarrow> b'(a := tilePixel tileBlockPacket rowData k)))
          [0..<6] b)"

definition cmdTileBlock ::
    "CdgTileBlockData \<Rightarrow> TileBlockType \<Rightarrow> CdgParser \<Rightarrow> error + CdgParser" where
  "cmdTileBlock tileBlockPacket type d =
     and_then (foldE (tileRow tileBlockPacket type) [0..<12] (bits (m_image d)))
       (\<lambda>b. Inr (d\<lparr>m_image := (m_image d)\<lparr>bits := b\<rparr>, m_needupdate := True\<rparr>))"

definition cmdColors :: "CdgColorsData \<Rightarrow> CdgColorTables \<Rightarrow> CdgParser \<Rightarrow> CdgParser" where
  "cmdColors cdata table d =
     fold (\<lambda>k d'.
        let curColor = (if table = HighColors then 8 else 0) + k
        in if colorTable (m_image d') ! curColor \<noteq> colors cdata k
           then d'\<lparr>m_image := (m_image d')\<lparr>colorTable :=
                     (colorTable (m_image d'))[curColor := colors cdata k]\<rparr>,
                   m_needupdate := True\<rparr>
           else d')
       [0..<8] d"

text \<open>
  \<^verbatim>\<open>cmdScroll\<close>. Every coarse shift saves the part that leaves the image in a local array
  and then moves the rest with \<^verbatim>\<open>memcpy\<close> inside the pixel buffer.
\<close>

definition scrollLeftLine :: "ScrollType \<Rightarrow> byte \<Rightarrow> nat \<Rightarrow> memory \<Rightarrow> error + memory" where
  "scrollLeftLine type c i mem =
     (let line = scanLine i
      in and_then (memcpy (TmpPixels, 0) (ImageBits, line) 6 mem) (\<lambda>mem1.
         and_then (memcpy (ImageBits, line) (ImageBits, line + 6 * m_bytesPerPixel)
                     (294 * m_bytesPerPixel) mem1) (\<lambda>mem2.
         if type = ScrollCopy
         then memcpy (ImageBits, line + m_borderRBytesOffset) (TmpPixels, 0) 6 mem2
         else Inr (mem2(ImageBits :=
                     memset (mem2 ImageBits) (line + m_borderLRBytes) c 6)))))"

definition scrollRightLine :: "ScrollType \<Rightarrow> byte \<Rightarrow> nat \<Rightarrow> memory \<Rightarrow> error + memory" where
  "scrollRightLine type c i mem =
     (let line = scanLine i
      in and_then (memcpy (TmpPixels, 0) (ImageBits, line + m_bytesPerPixel * 294) 6 mem) (\<lambda>mem1.
         and_then (memcpy (ImageBits, line + 6 * m_bytesPerPixel) (ImageBits, line)
                     (294 * m_bytesPerPixel) mem1) (\<lambda>mem2.
         if type = ScrollCopy
         then memcpy (ImageBits, line) (TmpPixels, 0) 6 mem2
         else Inr (mem2(ImageBits := memset (mem2 ImageBits) line c 6)))))"

definition scrollUp :: "ScrollType \<Rightarrow> byte \<Rightarrow> memory \<Rightarrow> error + memory" where
  "scrollUp type c mem =
     and_then (memcpy (TmpLines, 0) (ImageBits, 0) (bytesPerLine * 12) mem) (\<lambda>mem1.
     and_then (memcpy (ImageBits, 0) (ImageBits, bytesPerLine * 12)
                 (204 * bytesPerLine) mem1) (\<lambda>mem2.
     if type = ScrollCopy
     then memcpy (ImageBits, 204 * bytesPerLine) (TmpLines, 0) (bytesPerLine * 12) mem2
     else Inr (mem2(ImageBits :=
                 memset (mem2 ImageBits) (204 * bytesPerLine) c (bytesPerLine * 12)))))"

definition scrollDown :: "ScrollType \<Rightarrow> byte \<Rightarrow> memory \<Rightarrow> error + memory" where
  "scrollDown type c mem =
     and_then (memcpy (TmpLines, 0) (ImageBits, bytesPerLine * 204) (bytesPerLine * 12) mem)
       (\<lambda>mem1.
     and_then (memcpy (ImageBits, bytesPerLine * 12) (ImageBits, 0)
                 (204 * bytesPerLine) mem1) (\<lambda>mem2.
     if type = ScrollCopy
     then memcpy (ImageBits, 0) (TmpLines, 0) (bytesPerLine * 12) mem2
     else Inr (mem2(ImageBits := memset (mem2 ImageBits) 0 c (bytesPerLine * 12)))))"

definition cmdScroll :: "CdgScrollCmdData \<Rightarrow> ScrollType \<Rightarrow> CdgParser \<Rightarrow> error + CdgParser" where
  "cmdScroll scrollCmdData type d =
     (let c = sc_color scrollCmdData;
          mem0 = image_memory (m_image d)
      in and_then (if hSCmd scrollCmdData = 2
                   then foldE (scrollLeftLine type c) [0..<216] mem0 else Inr mem0) (\<lambda>mem1.
         and_then (if hSCmd scrollCmdData = 1
                   then foldE (scrollRightLine type c) [0..<216] mem1 else Inr mem1) (\<lambda>mem2.
         and_then (if vSCmd scrollCmdData = 2 then scrollUp type c mem2 else Inr mem2) (\<lambda>mem3.
         and_then (if vSCmd scrollCmdData = 1 then scrollDown type c mem3 else Inr mem3) (\<lambda>mem4.
           let d1 = d\<lparr>m_image := (m_image d)\<lparr>bits := mem4 ImageBits\<rparr>\<rparr>;
               d2 = (if m_curVOffset d1 \<noteq> vSOffset scrollCmdData
                     then d1\<lparr>m_curHOffset := hSOffset scrollCmdData\<rparr> else d1)
           in Inr (d2\<lparr>m_curVOffset := vSOffset scrollCmdData, m_needupdate := True\<rparr>))))))"

definition cmdDefineTransparent :: "(nat \<Rightarrow> byte) \<Rightarrow> CdgParser \<Rightarrow> CdgParser" where
  "cmdDefineTransparent pdata d = d"

subsection \<open>The dispatcher\<close>

definition readCdgSubcodePacket ::
    "cdg_header \<Rightarrow> CDG_SubCode \<Rightarrow> CdgParser \<Rightarrow> error + CdgParser" where
  "readCdgSubcodePacket h subCode d =
     (if command subCode AND m_subcodeMask \<noteq> m_subcodeCommand then Inr d
      else
        let i = instruction subCode AND m_subcodeMask
        in and_then
             (if i = CmdMemoryPreset
              then Inr ((cmdMemoryPreset (MemoryPresetData (data subCode)) d)
                          \<lparr>m_lastCmdWasMempreset := True\<rparr>)
              else if i = CmdBorderPreset
              then Inr (cmdBorderPreset (BorderPresetData h (data subCode)) d)
              else if i = CmdTileBlock
              then cmdTileBlock (TileBlockData h (data subCode)) TileBlockNormal d
              else if i = CmdScrollPreset
              then cmdScroll (ScrollCmdData h (data subCode)) ScrollPreset d
              else if i = CmdScrollCopy
              then cmdScroll (ScrollCmdData h (data subCode)) ScrollCopy d
              else if i = CmdDefineTrans
              then Inr (cmdDefineTransparent (data subCode) d)
              else if i = CmdColorsLow
              then Inr (cmdColors (ColorsData h (data subCode)) LowColors d)
              else if i = CmdColorsHigh
              then Inr (cmdColors (ColorsData h (data subCode)) HighColors d)
              else if i = CmdTileBlockXOR h
              then cmdTileBlock (TileBlockData h (data subCode)) TileBlockXOR d
              else Inr d)
             (\<lambda>d1. Inr (d1\<lparr>m_lastCmdWasMempreset :=
                              (instruction subCode = CmdMemoryPreset)\<rparr>)))"

subsection \<open>Floating-point arithmetic\<close>

text \<open>
  \<^verbatim>\<open>position()\<close> and the two lookups by time compute in \<^verbatim>\<open>double\<close> and \<^verbatim>\<open>float\<close>. A
  floating-point value is the rational it denotes; \<open>rn p\<close> rounds a rational to the
  nearest one with a significand of \<open>p\<close> bits, ties to even (IEEE 754, the default
  rounding), so \<open>to_double\<close> rounds the exact result of an operation on doubles and
  \<open>to_float\<close> converts to \<^verbatim>\<open>float\<close>. The exponent range is not modelled: the operands
  are 32-bit integers and the constants 40, 100, 300 and 1000, far from overflow and
  underflow in both formats.
\<close>

definition round_half_even :: "rat \<Rightarrow> int" where
  "round_half_even y =
     (let f = \<lfloor>y\<rfloor>; r = y - of_int f
      in if r < 1 / 2 then f
         else if 1 / 2 < r then f + 1
         else if even f then f else f + 1)"

definition ilog2 :: "rat \<Rightarrow> int" where
  "ilog2 q =
     (let (a, b) = quotient_of q; e = bitlen a - bitlen b
      in if 2 powi e \<le> q then e else e - 1)"

definition rn :: "nat \<Rightarrow> rat \<Rightarrow> rat" where
  "rn p q =
     (if q = 0 then 0
      else let e = ilog2 \<bar>q\<bar> - (int p - 1)
           in sgn q * of_int (round_half_even (\<bar>q\<bar> / 2 powi e)) * 2 powi e)"

definition to_double :: "rat \<Rightarrow> rat" where
  "to_double q = rn 53 q"

definition to_float :: "rat \<Rightarrow> rat" where
  "to_float q = rn 24 q"

text \<open>
  Conversion of a floating-point value to an integer type truncates towards zero and is
  undefined when the truncated value is not representable; \<^verbatim>\<open>size_t\<close> has 64 bits.
  \<^verbatim>\<open>std::vector::at\<close> throws \<^verbatim>\<open>std::out_of_range\<close> for an index that is not below the size.
\<close>

definition truncate :: "rat \<Rightarrow> int" where
  "truncate x = (if 0 \<le> x then \<lfloor>x\<rfloor> else \<lceil>x\<rceil>)"

definition to_size_t :: "rat \<Rightarrow> error + 64 word" where
  "to_size_t x =
     (if x \<le> - 1 \<or> 2 ^ 64 \<le> x then Inl UndefinedConversion
      else Inr (word_of_int (truncate x)))"

definition to_int :: "rat \<Rightarrow> error + int" where
  "to_int x =
     (if x \<le> - (2 ^ 31) - 1 \<or> 2 ^ 31 \<le> x then Inl UndefinedConversion
      else Inr (truncate x))"

definition vector_at :: "'a list \<Rightarrow> 64 word \<Rightarrow> error + 'a" where
  "vector_at v n = (if unat n < length v then Inr (v ! unat n) else Inl (OutOfRange (unat n)))"

definition vector_size :: "'a list \<Rightarrow> 64 word" where
  "vector_size v = word_of_nat (length v)"

subsection \<open>Sampling frames\<close>

text \<open>
  \<^verbatim>\<open>position()\<close>; \<open>position_ms p\<close> is what it computes when \<^verbatim>\<open>m_position\<close> is \<open>p\<close>.
  The conversion \<^verbatim>\<open>(int) fpos\<close> is defined here: for the packets of an input (fewer than
  \<open>2 ^ 31 / 24\<close>) the position stays below \<open>2 ^ 31\<close> ms.
\<close>

definition position_ms :: "nat \<Rightarrow> nat" where
  "position_ms p =
     (let fpos = to_float (to_double (to_double (of_nat p / 300) * 1000))
      in nat (truncate fpos))"

definition position :: "CdgParser \<Rightarrow> nat" where
  "position d = position_ms (m_position d)"

text \<open>
  \<^verbatim>\<open>getSafeArea()\<close> copies 192 lines of 288 bytes out of the pixel buffer of \<^verbatim>\<open>m_image\<close>,
  from the line and column that the fine offsets select, with no check of the offsets.
\<close>

definition getSafeArea :: "CdgParser \<Rightarrow> error + QImage" where
  "getSafeArea d =
     and_then
       (foldE (\<lambda>i mem.
           let curSrcLine = i + m_curVOffset d;
               srcLineOffset = bytesPerLine * (12 + curSrcLine);
               dstLineOffset = 288 * i;
               copiedLineSize = 288 * m_bytesPerPixel
           in memcpy (SafeAreaBits, dstLineOffset)
                (ImageBits, srcLineOffset + m_borderLRBytes + m_curHOffset d * m_bytesPerPixel)
                copiedLineSize mem)
         [0..<192] (image_memory (m_image d)))
       (\<lambda>mem. Inr \<lparr>colorTable = colorTable (m_image d), bits = mem SafeAreaBits\<rparr>)"

text \<open>
  \<^verbatim>\<open>ioDevice.read((char *)&subCode, sizeof(subCode))\<close> overwrites the first bytes of the
  struct with the bytes read, 24 of them or what is left of the input.
\<close>

definition readInto :: "byte list \<Rightarrow> CDG_SubCode \<Rightarrow> CDG_SubCode" where
  "readInto chunk subCode = (\<lambda>i. if i < length chunk then chunk ! i else subCode i)"

text \<open>The body of the loop of \<^verbatim>\<open>process()\<close>, on the packet just read; \<open>frameno\<close> is
  the local counter.\<close>

definition process_packet ::
    "cdg_header \<Rightarrow> CDG_SubCode \<Rightarrow> nat \<Rightarrow> CdgParser \<Rightarrow> error + nat \<times> CdgParser" where
  "process_packet h subCode frameno d =
     (let d1 = d\<lparr>m_needupdate := False\<rparr>
      in and_then (readCdgSubcodePacket h subCode d1) (\<lambda>d2.
         let d3 = (if m_needupdate d2 then d2\<lparr>m_lastCDGCommandMS := frameno * 40\<rparr> else d2);
             d4 = d3\<lparr>m_position := m_position d3 + 1\<rparr>
         in if position d4 mod 40 = 0 \<and> 40 \<le> position d4
            then and_then (getSafeArea d4) (\<lambda>image.
                   Inr (frameno + 1,
                        d4\<lparr>m_skip := m_skip d4 @ [\<not> m_needupdate d4],
                           m_frames := m_frames d4 @
                             [\<lparr>frameImage = image, startTime = position d4\<rparr>]\<rparr>))
            else Inr (frameno, d4)))"

function process_loop ::
    "cdg_header \<Rightarrow> byte list \<Rightarrow> CDG_SubCode \<Rightarrow> nat \<Rightarrow> CdgParser \<Rightarrow> error + CdgParser" where
  "process_loop h input subCode frameno d =
     (if input = [] then Inr d
      else
        let subCode' = readInto (take 24 input) subCode
        in case process_packet h subCode' frameno d of
             Inl e \<Rightarrow> Inl e
           | Inr r \<Rightarrow> process_loop h (drop 24 input) subCode' (fst r) (snd r))"
  by pat_completeness auto
termination
  by (relation "measure (\<lambda>(h, input, subCode, frameno, d). length input)") auto

declare process_loop.simps [simp del]

text \<open>
  \<^verbatim>\<open>process()\<close>. The local \<^verbatim>\<open>subCode\<close> is not initialised before the first read; its
  contents then are the parameter \<open>uninit\<close>. Opening a \<^verbatim>\<open>QBuffer\<close> for reading does not
  fail, and the method returns true.
\<close>

definition process :: "cdg_header \<Rightarrow> CDG_SubCode \<Rightarrow> CdgParser \<Rightarrow> error + CdgParser" where
  "process h uninit d =
     (let d0 = d\<lparr>m_needupdate := False\<rparr>
      in and_then (process_loop h (m_cdgData d0) uninit 0 d0)
           (\<lambda>d1. Inr (d1\<lparr>m_cdgData := [], m_isOpen := True\<rparr>)))"

subsection \<open>Accessors\<close>

text \<open>
  \<^verbatim>\<open>duration()\<close> returns \<^verbatim>\<open>m_cdgData.size() * 40\<close> as an \<^verbatim>\<open>unsigned int\<close>: the product
  modulo \<open>2 ^ 32\<close> (two's complement arithmetic, as compilers emit it also where the
  product of the two \<^verbatim>\<open>int\<close>s overflows).
\<close>

definition duration :: "CdgParser \<Rightarrow> 32 word" where
  "duration d = word_of_nat (length (m_cdgData d)) * 40"

definition setTempo :: "32 word \<Rightarrow> CdgParser \<Rightarrow> CdgParser" where
  "setTempo percent d = d\<lparr>m_tempo := percent\<rparr>"

definition videoFrameByTime :: "CdgParser \<Rightarrow> 32 word \<Rightarrow> error + QVideoFrame" where
  "videoFrameByTime d ms =
     (case to_size_t
             (to_double
                (to_double (of_nat (unat ms) * to_double (to_float (of_int (sint (m_tempo d))) / 100))
                 / 40)) of
        Inl e \<Rightarrow> Inl e
      | Inr frameno0 \<Rightarrow>
          let frameno = (if 0 < unat ms mod 40 then frameno0 + 1 else frameno0)
          in if vector_size (m_frames d) \<le> frameno
             then vector_at (m_frames d) (vector_size (m_frames d) - 1)
             else vector_at (m_frames d) frameno)"

definition canSkipFrameByTime :: "CdgParser \<Rightarrow> 32 word \<Rightarrow> error + bool" where
  "canSkipFrameByTime d ms =
     (case to_int
             (to_double (of_nat (unat ms) * to_double (to_float (of_int (sint (m_tempo d))) / 100))) of
        Inl e \<Rightarrow> Inl e
      | Inr scaledMs \<Rightarrow>
          let frameno0 = (word_of_int (if 0 \<le> scaledMs then scaledMs div 40
                                       else - ((- scaledMs) div 40)) :: 64 word);
              frameno = (if 0 < unat ms mod 40 then frameno0 + 1 else frameno0)
          in if vector_size (m_frames d) < frameno then Inr False
             else
               (case vector_at (m_skip d) (frameno - 1) of
                  Inl e \<Rightarrow> Inl e
                | Inr s1 \<Rightarrow>
                    (case vector_at (m_skip d) frameno of
                       Inl e \<Rightarrow> Inl e
                     | Inr s2 \<Rightarrow>
                         (case vector_at (m_skip d) (frameno + 1) of
                            Inl e \<Rightarrow> Inl e
                          | Inr s3 \<Rightarrow> Inr (s1 \<and> s2 \<and> s3)))))"

subsection \<open>Notions used in the proofs\<close>

text \<open>
  \<open>sampled\<close> collects the members that only \<^verbatim>\<open>process()\<close> and the accessors touch: no
  command handler changes them. \<open>boundary p\<close> is the test of the loop of \<^verbatim>\<open>process()\<close>
  when \<^verbatim>\<open>m_position\<close> is \<open>p\<close>: a frame is sampled after packet \<open>p\<close>.
\<close>

definition sampled ::
    "CdgParser \<Rightarrow> nat \<times> QVideoFrame list \<times> bool list \<times> byte list \<times> 32 word" where
  "sampled d = (m_position d, m_frames d, m_skip d, m_cdgData d, m_tempo d)"

definition boundary :: "nat \<Rightarrow> bool" where
  "boundary p = (position_ms p mod 40 = 0 \<and> 40 \<le> position_ms p)"

section \<open>Properties\<close>

subsection \<open>Calls that return\<close>

lemma and_then_simps [simp]:
  "and_then (Inr v) f = f v" "and_then (Inl e) f = Inl e"
  by (simp_all add: and_then_def)

lemma and_then_Inr_iff: "and_then r f = Inr y \<longleftrightarrow> (\<exists>v. r = Inr v \<and> f v = Inr y)"
  by (cases r) simp_all

lemma foldE_returns:
  assumes "\<And>x s. x \<in> set xs \<Longrightarrow> \<exists>s'. f x s = Inr s'"
  shows "\<exists>s'. foldE f xs s = Inr s'"
  using assms
proof (induction xs arbitrary: s)
  case Nil
  then show ?case by simp
next
  case (Cons x xs)
  from Cons.prems[of x s] obtain s1 where s1: "f x s = Inr s1" by auto
  from Cons.IH[of s1] Cons.prems obtain s' where "foldE f xs s1 = Inr s'" by auto
  with s1 show ?case by simp
qed

lemma memcpy_returns:
  assumes "snd dst + n \<le> object_size (fst dst)" "snd src + n \<le> object_size (fst src)"
    "fst dst \<noteq> fst src"
  shows "\<exists>mem'. memcpy dst src n mem = Inr mem'"
  using assms by (simp add: memcpy_def)

lemma getSafeArea_returns:
  assumes "300 * m_curVOffset d + m_curHOffset d \<le> 3606"
  shows "\<exists>image. getSafeArea d = Inr image"
proof -
  let ?f = "\<lambda>i mem.
           let curSrcLine = i + m_curVOffset d;
               srcLineOffset = bytesPerLine * (12 + curSrcLine);
               dstLineOffset = 288 * i;
               copiedLineSize = 288 * m_bytesPerPixel
           in memcpy (SafeAreaBits, dstLineOffset)
                (ImageBits, srcLineOffset + m_borderLRBytes + m_curHOffset d * m_bytesPerPixel)
                copiedLineSize mem"
  have "\<exists>mem'. ?f i mem = Inr mem'" if "i \<in> set [0..<192]" for i mem
  proof -
    from that have i: "i < 192" by simp
    then have "288 * i + 288 \<le> 55296" by simp
    moreover have "300 * (12 + (i + m_curVOffset d)) + 6 + m_curHOffset d + 288 \<le> 64800"
      using i assms by simp
    ultimately show ?thesis
      unfolding Let_def
      by (intro memcpy_returns)
         (simp_all add: object_size_def bytesPerLine_def m_bytesPerPixel_def m_borderLRBytes_def)
  qed
  then have "\<exists>mem'. foldE ?f [0..<192] (image_memory (m_image d)) = Inr mem'"
    by (rule foldE_returns)
  then show ?thesis
    unfolding getSafeArea_def by auto
qed

lemma cmdTileBlock_sampled:
  "cmdTileBlock p ty d = Inr d' \<Longrightarrow> sampled d' = sampled d"
  by (auto simp add: cmdTileBlock_def and_then_Inr_iff sampled_def)

lemma cmdScroll_sampled:
  "cmdScroll p ty d = Inr d' \<Longrightarrow> sampled d' = sampled d"
  by (auto simp add: cmdScroll_def Let_def and_then_Inr_iff sampled_def)

subsection \<open>Lines of the image buffer\<close>

lemmas geometry_defs = scanLine_def bytesPerLine_def m_borderLRBytes_def
  m_borderRBytesOffset_def m_bytesPerPixel_def

lemma line_address:
  fixes a n :: nat
  assumes "n * 300 \<le> a" "a < n * 300 + 300"
  shows "a div 300 = n" "a - n * 300 = a mod 300"
proof -
  from assms(1) obtain r where a: "a = n * 300 + r"
    using le_Suc_ex by blast
  with assms(2) have r: "r < 300" by simp
  show "a div 300 = n" using a r by simp
  show "a - n * 300 = a mod 300" using a r by simp
qed

lemma borderLine_apply:
  "borderLine c line b a =
     (if line * 300 \<le> a \<and> a < line * 300 + 300 \<and>
         (line < 12 \<or> 202 < line \<or> a - line * 300 < 6 \<or> 294 \<le> a - line * 300)
      then c else b a)"
  by (auto simp add: borderLine_def memset_def geometry_defs)

lemma fold_border_lines:
  fixes f :: "nat \<Rightarrow> (nat \<Rightarrow> 'a) \<Rightarrow> nat \<Rightarrow> 'a"
  assumes f: "\<And>i b a. f i b a =
     (if i * 300 \<le> a \<and> a < i * 300 + 300 \<and>
         (i < 12 \<or> 202 < i \<or> a - i * 300 < 6 \<or> 294 \<le> a - i * 300)
      then c else b a)"
  shows "fold f [0..<n] b a =
     (if a < n * 300 \<and> (a div 300 < 12 \<or> 202 < a div 300 \<or> a mod 300 < 6 \<or> 294 \<le> a mod 300)
      then c else b a)"
proof (induction n)
  case 0
  then show ?case by simp
next
  case (Suc n)
  let ?b' = "fold f [0..<n] b"
  have step: "fold f [0..<Suc n] b a = f n ?b' a"
    by simp
  show ?case
  proof (cases "n * 300 \<le> a \<and> a < n * 300 + 300")
    case True
    then have q: "a div 300 = n" and r: "a - n * 300 = a mod 300"
      using line_address[of n a] by simp_all
    have "f n ?b' a = (if n < 12 \<or> 202 < n \<or> a mod 300 < 6 \<or> 294 \<le> a mod 300 then c else ?b' a)"
      using True by (subst f) (simp add: r)
    also have "?b' a = b a"
      using True by (subst Suc.IH) simp
    finally have "f n ?b' a = (if n < 12 \<or> 202 < n \<or> a mod 300 < 6 \<or> 294 \<le> a mod 300 then c else b a)" .
    moreover have "a < Suc n * 300" using True by simp
    ultimately show ?thesis
      by (simp only: step q if_True simp_thms)
  next
    case False
    then have "f n ?b' a = ?b' a"
      by (subst f) auto
    moreover from False have "a < Suc n * 300 \<longleftrightarrow> a < n * 300" by auto
    ultimately show ?thesis
      by (simp only: step Suc.IH)
  qed
qed

lemma fold_borderLine:
  "fold (borderLine c) [0..<n] b a =
     (if a < n * 300 \<and> (a div 300 < 12 \<or> 202 < a div 300 \<or> a mod 300 < 6 \<or> 294 \<le> a mod 300)
      then c else b a)"
  by (rule fold_border_lines) (rule borderLine_apply)

subsection \<open>Rounding\<close>

text \<open>
  The exponent \<open>ilog2\<close> finds is the binade of its argument; rounding moves a value by at
  most half a unit in the last place and not at all when the value is representable.
\<close>

lemma bitlen_powi_bounds:
  assumes "0 < a"
  shows "(2::rat) powi (bitlen a - 1) \<le> of_int a" "of_int a < (2::rat) powi (bitlen a)"
proof -
  from assms have pos: "1 \<le> bitlen a"
    using bitlen_eq_zero_iff[of a] bitlen_nonneg[of a] by linarith
  from bitlen_bounds[OF assms] have lo: "2 ^ nat (bitlen a - 1) \<le> a" and hi: "a < 2 ^ nat (bitlen a)"
    by simp_all
  have "(2::rat) powi (bitlen a - 1) = of_int (2 ^ nat (bitlen a - 1))"
    using pos by (simp add: power_int_nonneg_exp)
  also have "\<dots> \<le> of_int a" using lo by (simp only: of_int_le_iff)
  finally show "(2::rat) powi (bitlen a - 1) \<le> of_int a" .
  have "(of_int a :: rat) < of_int (2 ^ nat (bitlen a))" using hi by (simp only: of_int_less_iff)
  also have "\<dots> = (2::rat) powi (bitlen a)"
    using pos by (simp add: power_int_nonneg_exp)
  finally show "of_int a < (2::rat) powi (bitlen a)" .
qed

lemma ilog2_bounds:
  assumes "0 < q"
  shows "2 powi (ilog2 q) \<le> q" "q < 2 powi (ilog2 q + 1)"
proof -
  obtain a b where ab: "quotient_of q = (a, b)" by (cases "quotient_of q")
  then have b: "0 < b" and q: "q = of_int a / of_int b"
    by (simp_all add: quotient_of_denom_pos quotient_of_div)
  with assms have a: "0 < a"
    by (simp add: zero_less_divide_iff)
  define e where "e = bitlen a - bitlen b"
  have bq: "(0::rat) < of_int b" using b by simp
  have "q < 2 powi (bitlen a) / 2 powi (bitlen b - 1)"
    unfolding q using bitlen_powi_bounds[OF a] bitlen_powi_bounds[OF b] bq a
    by (intro frac_less) simp_all
  also have "\<dots> = 2 powi (e + 1)"
    unfolding e_def by (simp flip: power_int_diff add: algebra_simps)
  finally have up: "q < 2 powi (e + 1)" .
  have "(2::rat) powi (e - 1) = 2 powi (bitlen a - 1) / 2 powi (bitlen b)"
    unfolding e_def by (simp flip: power_int_diff add: algebra_simps)
  also have "\<dots> < q"
    unfolding q using bitlen_powi_bounds[OF a] bitlen_powi_bounds[OF b] bq
    by (intro frac_less2) simp_all
  finally have lo: "2 powi (e - 1) < q" .
  have il: "ilog2 q = (if 2 powi e \<le> q then e else e - 1)"
    by (simp add: ilog2_def ab e_def Let_def)
  show "2 powi (ilog2 q) \<le> q"
    using lo by (simp add: il less_imp_le)
  show "q < 2 powi (ilog2 q + 1)"
    using up by (simp add: il not_le)
qed

lemma round_half_even_error: "\<bar>of_int (round_half_even y) - y\<bar> \<le> 1 / 2"
proof -
  define r where "r = y - of_int \<lfloor>y\<rfloor>"
  have r: "0 \<le> r" "r < 1" unfolding r_def by linarith+
  have y: "y = of_int \<lfloor>y\<rfloor> + r" unfolding r_def by simp
  have "round_half_even y = (if r < 1 / 2 then \<lfloor>y\<rfloor> else if 1 / 2 < r then \<lfloor>y\<rfloor> + 1
      else if even \<lfloor>y\<rfloor> then \<lfloor>y\<rfloor> else \<lfloor>y\<rfloor> + 1)"
    by (simp add: round_half_even_def Let_def r_def)
  then consider "round_half_even y = \<lfloor>y\<rfloor>" "r \<le> 1 / 2"
    | "round_half_even y = \<lfloor>y\<rfloor> + 1" "1 / 2 \<le> r"
    by (auto split: if_splits)
  then show ?thesis
  proof cases
    case 1
    then show ?thesis using r by (subst (2) y) simp
  next
    case 2
    then show ?thesis using r by (subst (2) y) simp
  qed
qed

lemma round_half_even_near:
  assumes "\<bar>y - of_int N\<bar> < 1 / 2"
  shows "round_half_even y = N"
proof -
  have "\<bar>(of_int (round_half_even y) :: rat) - of_int N\<bar> < 1"
    using round_half_even_error[of y] assms by linarith
  then have "\<bar>round_half_even y - N\<bar> < 1"
    by (metis of_int_diff of_int_abs of_int_less_iff of_int_1)
  then show ?thesis by linarith
qed

lemma rn_pos:
  assumes "0 < q"
  shows "rn p q = of_int (round_half_even (q / 2 powi (ilog2 q - (int p - 1))))
                    * 2 powi (ilog2 q - (int p - 1))"
  using assms by (simp add: rn_def Let_def)

lemma rn_zero: "rn p 0 = 0"
  by (simp add: rn_def)

lemma rn_rel_error:
  assumes q: "0 < q" and p: "1 \<le> p"
  shows "\<bar>rn p q - q\<bar> \<le> q / 2 ^ p"
proof -
  define e where "e = ilog2 q - (int p - 1)"
  define u :: rat where "u = 2 powi e"
  have u: "0 < u" unfolding u_def by simp
  have "u = 2 powi (ilog2 q) / 2 powi (int p - 1)"
    unfolding u_def e_def by (simp add: power_int_diff)
  also have "\<dots> = 2 powi (ilog2 q) / 2 ^ (p - 1)"
    using p by (simp add: power_int_nonneg_exp nat_diff_distrib)
  also have "\<dots> \<le> q / 2 ^ (p - 1)"
    using ilog2_bounds(1)[OF q] by (simp add: divide_right_mono)
  finally have ule: "u \<le> q / 2 ^ (p - 1)" .
  have "rn p q - q = (of_int (round_half_even (q / u)) - q / u) * u"
    using u by (simp add: rn_pos[OF q] e_def u_def algebra_simps)
  then have "\<bar>rn p q - q\<bar> = \<bar>of_int (round_half_even (q / u)) - q / u\<bar> * u"
    using u by (simp add: abs_mult)
  also have "\<dots> \<le> (1 / 2) * u"
    using round_half_even_error[of "q / u"] u by (intro mult_right_mono) simp_all
  also have "\<dots> \<le> (1 / 2) * (q / 2 ^ (p - 1))"
    using ule by simp
  also have "\<dots> = q / 2 ^ p"
  proof -
    from p obtain p' where "p = Suc p'" by (cases p) simp_all
    then show ?thesis by simp
  qed
  finally show ?thesis .
qed

lemma rn_pos_bounds:
  assumes q: "0 < q" and p: "1 \<le> p"
  shows "q / 2 \<le> rn p q" "rn p q \<le> 2 * q"
proof -
  have "(2::rat) ^ 1 \<le> 2 ^ p" using p by (intro power_increasing) simp_all
  then have "q / 2 ^ p \<le> q / 2" using q by (intro divide_left_mono) simp_all
  with rn_rel_error[OF q p] have "\<bar>rn p q - q\<bar> \<le> q / 2" by linarith
  then show "q / 2 \<le> rn p q" "rn p q \<le> 2 * q" using q by linarith+
qed

lemma abs_diff_leD:
  fixes a b c :: rat
  assumes "\<bar>a - b\<bar> \<le> c"
  shows "b - c \<le> a" "a \<le> b + c"
  using assms by linarith+

lemma double_chain_error:
  fixes m :: nat
  assumes m: "0 < m"
  defines "t \<equiv> of_nat m * 10 / (3::rat)"
  defines "d2 \<equiv> to_double (to_double (of_nat m / 300) * 1000)"
  shows "t - 3 * t / 2 ^ 53 \<le> d2" "d2 \<le> t + 3 * t / 2 ^ 53" "0 < d2"
proof -
  define x :: rat where "x = of_nat m / 300"
  define d1 where "d1 = rn 53 x"
  define z where "z = d1 * 1000"
  have x: "0 < x" unfolding x_def using m by simp
  have t: "t = 1000 * x" unfolding t_def x_def by simp
  have e1: "\<bar>d1 - x\<bar> \<le> x / 2 ^ 53"
    unfolding d1_def by (rule rn_rel_error[OF x]) simp
  have d1: "0 < d1" "d1 \<le> 2 * x"
    unfolding d1_def using rn_pos_bounds[OF x, of 53] x by simp_all
  have z: "0 < z" "z \<le> 2 * t" unfolding z_def t using d1 by simp_all
  have d2: "d2 = rn 53 z" unfolding d2_def z_def d1_def x_def to_double_def ..
  have e2: "\<bar>d2 - z\<bar> \<le> z / 2 ^ 53"
    unfolding d2 by (rule rn_rel_error[OF z(1)]) simp
  have tz: "t - t / 2 ^ 53 \<le> z" "z \<le> t + t / 2 ^ 53"
    using abs_diff_leD[OF e1] unfolding z_def t by simp_all
  have zz: "z / 2 ^ 53 \<le> 2 * t / 2 ^ 53" using z(2) by (simp add: divide_right_mono)
  have split: "3 * t / 2 ^ 53 = t / 2 ^ 53 + 2 * t / 2 ^ 53" by simp
  show "t - 3 * t / 2 ^ 53 \<le> d2" "d2 \<le> t + 3 * t / 2 ^ 53"
    unfolding split using abs_diff_leD[OF e2] tz zz by linarith+
  show "0 < d2" unfolding d2 using rn_pos_bounds(1)[OF z(1), of 53] z(1) by simp
qed

lemma ilog2_ge:
  assumes "0 < q" "2 powi e \<le> q"
  shows "e \<le> ilog2 q"
proof (rule ccontr)
  assume "\<not> e \<le> ilog2 q"
  then have "ilog2 q + 1 \<le> e" by simp
  then have "(2::rat) powi (ilog2 q + 1) \<le> 2 powi e"
    by (intro power_int_increasing) simp_all
  with ilog2_bounds(2)[OF assms(1)] assms(2) show False by linarith
qed

lemma ilog2_less:
  assumes "0 < q" "q < 2 powi e"
  shows "ilog2 q < e"
proof (rule ccontr)
  assume "\<not> ilog2 q < e"
  then have "e \<le> ilog2 q" by simp
  then have "(2::rat) powi e \<le> 2 powi (ilog2 q)"
    by (intro power_int_increasing) simp_all
  with ilog2_bounds(1)[OF assms(1)] assms(2) show False by linarith
qed

lemma rn_half_ulp:
  assumes q: "0 < q"
  shows "\<bar>rn p q - q\<bar> \<le> 2 powi (ilog2 q - (int p - 1)) / 2"
proof -
  define u :: rat where "u = 2 powi (ilog2 q - (int p - 1))"
  have u: "0 < u" unfolding u_def by simp
  have "rn p q - q = (of_int (round_half_even (q / u)) - q / u) * u"
    using u by (simp add: rn_pos[OF q] u_def algebra_simps)
  then have "\<bar>rn p q - q\<bar> = \<bar>of_int (round_half_even (q / u)) - q / u\<bar> * u"
    using u by (simp add: abs_mult)
  also have "\<dots> \<le> (1 / 2) * u"
    using round_half_even_error[of "q / u"] u by (intro mult_right_mono) simp_all
  finally show ?thesis unfolding u_def by simp
qed

lemma rn_exact_near:
  assumes q: "0 < q"
    and near: "\<bar>q - of_int N * 2 powi (ilog2 q - (int p - 1))\<bar> < 2 powi (ilog2 q - (int p - 1)) / 2"
  shows "rn p q = of_int N * 2 powi (ilog2 q - (int p - 1))"
proof -
  define u :: rat where "u = 2 powi (ilog2 q - (int p - 1))"
  have u: "0 < u" unfolding u_def by simp
  have "q / u - of_int N = (q - of_int N * u) / u"
    using u by (simp add: field_simps)
  then have "\<bar>q / u - of_int N\<bar> = \<bar>q - of_int N * u\<bar> / u"
    using u by (simp add: abs_divide)
  also have "\<dots> < (u / 2) / u"
    using near u unfolding u_def[symmetric] by (intro divide_strict_right_mono) simp_all
  also have "\<dots> = 1 / 2" using u by simp
  finally have "round_half_even (q / u) = N"
    by (rule round_half_even_near)
  then show ?thesis
    by (simp add: rn_pos[OF q] u_def)
qed

lemma to_float_exact:
  fixes M :: int and j :: nat
  assumes d: "0 < d"
    and E: "ilog2 d \<le> 23 + int j"
    and near: "\<bar>d - of_int M * 2 ^ j\<bar> < 2 powi (ilog2 d - 24)"
  shows "to_float d = of_int M * 2 ^ j"
proof -
  define s where "s = nat (23 + int j - ilog2 d)"
  define e where "e = ilog2 d - (int 24 - 1)"
  have s: "int j - int s = e" unfolding s_def e_def using E by simp
  have "(2::rat) powi (int j - int s) = 2 powi (int j) / 2 powi (int s)"
    by (rule power_int_diff) simp
  then have u: "(2::rat) powi e = 2 ^ j / 2 ^ s"
    unfolding s by simp
  have N: "of_int (M * 2 ^ s) * 2 powi e = (of_int M * 2 ^ j :: rat)"
    unfolding u by simp
  have e1: "ilog2 d - 24 = e - 1" unfolding e_def by simp
  have "(2::rat) powi (e - 1) = 2 powi e / 2 powi 1"
    by (rule power_int_diff) simp
  then have h: "(2::rat) powi e / 2 = 2 powi (ilog2 d - 24)"
    unfolding e1 by simp
  have "rn 24 d = of_int (M * 2 ^ s) * 2 powi (ilog2 d - (int 24 - 1))"
  proof (rule rn_exact_near[OF d])
    show "\<bar>d - of_int (M * 2 ^ s) * 2 powi (ilog2 d - (int 24 - 1))\<bar>
        < 2 powi (ilog2 d - (int 24 - 1)) / 2"
      unfolding e_def[symmetric] N h by (rule near)
  qed
  then show ?thesis unfolding to_float_def e_def[symmetric] N .
qed

lemma truncate_nonneg: "0 \<le> x \<Longrightarrow> truncate x = \<lfloor>x\<rfloor>"
  by (simp add: truncate_def)

lemma position_ms_0: "position_ms 0 = 0"
  by (simp add: position_ms_def to_double_def to_float_def rn_zero truncate_def)

lemma position_ms_exact:
  assumes m: "0 < m" and bound: "10 * m < 3 * 2 ^ 23"
  shows "position_ms m = 10 * m div 3"
proof -
  define t :: rat where "t = of_nat m * 10 / 3"
  define d2 where "d2 = to_double (to_double (of_nat m / 300) * 1000)"
  define n where "n = 10 * m div 3"
  define k where "k = 10 * m mod 3"
  define eps :: rat where "eps = 3 / 2 ^ 30"
  note ch = double_chain_error[OF m, folded t_def d2_def]
  have "10 * m = 3 * n + k" unfolding n_def k_def by simp
  then have "of_nat (10 * m) = (of_nat (3 * n + k) :: rat)" by simp
  then have t: "t = of_nat n + of_nat k / 3" unfolding t_def by (simp add: field_simps)
  have k: "k < 3" unfolding k_def by simp
  have "3 * n + k + 1 \<le> 3 * 2 ^ 23" using bound \<open>10 * m = 3 * n + k\<close> by simp
  then have "of_nat (3 * n + k + 1) \<le> (of_nat (3 * 2 ^ 23) :: rat)" by (simp only: of_nat_le_iff)
  then have tub: "t \<le> 2 ^ 23 - 1 / 3" unfolding t by (simp add: field_simps)
  have "10 \<le> 10 * m" using m by simp
  then have "(of_nat 10 :: rat) \<le> of_nat (10 * m)" by (simp only: of_nat_le_iff)
  then have tlb: "10 / 3 \<le> t" unfolding t_def by simp
  have "3 * t / 2 ^ 53 \<le> eps" unfolding eps_def using tub by simp
  with ch(1,2) have lo: "t - eps \<le> d2" and hi: "d2 \<le> t + eps" by linarith+
  have eps: "0 < eps" "eps < 1 / 2 ^ 23" "eps < 1 / 12" unfolding eps_def by simp_all
  have "2 \<le> d2" using lo eps(3) tlb by linarith
  then have d2lb: "2 powi 1 \<le> d2" by simp
  have "d2 < 2 ^ 23" using hi eps(3) tub by linarith
  then have d2ub: "d2 < 2 powi 23" by simp
  have E1: "1 \<le> ilog2 d2" by (rule ilog2_ge[OF ch(3) d2lb])
  have E22: "ilog2 d2 \<le> 22" using ilog2_less[OF ch(3) d2ub] by simp
  have f: "to_float d2 = rn 24 d2" by (simp add: to_float_def)
  have "nat (truncate (to_float d2)) = n"
  proof (cases "k = 0")
    case True
    have "(2::rat) powi (1 - 24) \<le> 2 powi (ilog2 d2 - 24)"
      using E1 by (intro power_int_increasing) simp_all
    then have u: "1 / 2 ^ 23 \<le> (2::rat) powi (ilog2 d2 - 24)"
      by (simp add: power_int_minus_divide)
    have tn: "t = of_int (int n) * 2 ^ 0" unfolding t using True by simp
    have "\<bar>d2 - t\<bar> \<le> eps" using lo hi by linarith
    with u eps(2) have "\<bar>d2 - of_int (int n) * 2 ^ 0\<bar> < 2 powi (ilog2 d2 - 24)"
      unfolding tn by linarith
    then have "to_float d2 = of_int (int n) * 2 ^ 0"
      using E22 by (intro to_float_exact[OF ch(3)]) simp_all
    then show ?thesis by (simp add: truncate_def)
  next
    case False
    with k have k12: "1 \<le> k" "k \<le> 2" by simp_all
    then have "(1::rat) \<le> of_nat k" "(of_nat k :: rat) \<le> 2"
      by simp_all
    then have kk: "of_nat n + 1 / 3 \<le> t" "t \<le> of_nat n + 2 / 3"
      unfolding t by simp_all
    have "(2::rat) powi (ilog2 d2 - (int 24 - 1)) / 2 \<le> 2 powi (22 - (int 24 - 1)) / 2"
      using E22 by (intro divide_right_mono power_int_increasing) simp_all
    also have "\<dots> = 1 / 4" by (simp add: power_int_minus_divide)
    finally have "\<bar>rn 24 d2 - d2\<bar> \<le> 1 / 4"
      using rn_half_ulp[OF ch(3), of 24] by linarith
    then have "d2 - 1 / 4 \<le> to_float d2" "to_float d2 \<le> d2 + 1 / 4"
      unfolding f by linarith+
    then have "of_nat n \<le> to_float d2" "to_float d2 < of_nat n + 1"
      using lo hi eps(3) kk by linarith+
    then have "0 \<le> to_float d2" "\<lfloor>to_float d2\<rfloor> = int n"
      by (simp_all add: floor_unique) 
    then show ?thesis by (simp add: truncate_def)
  qed
  then show ?thesis
    by (simp add: position_ms_def d2_def n_def)
qed

lemma position_ms_boundary:
  assumes k: "0 < k" and bound: "40 * k < 2 ^ 27"
  shows "position_ms (12 * k) = 40 * k"
proof -
  define t :: rat where "t = of_nat (12 * k) * 10 / 3"
  define d2 where "d2 = to_double (to_double (of_nat (12 * k) / 300) * 1000)"
  define eps :: rat where "eps = 3 / 2 ^ 26"
  have m: "0 < 12 * k" using k by simp
  note ch = double_chain_error[OF m, folded t_def d2_def]
  have t: "t = of_int (int (5 * k)) * 2 ^ 3" unfolding t_def by simp
  have t': "t = of_nat (40 * k)" unfolding t_def by simp
  have "40 \<le> 40 * k" using k by simp
  then have "(of_nat 40 :: rat) \<le> of_nat (40 * k)" by (simp only: of_nat_le_iff)
  then have tlb: "40 \<le> t" unfolding t' by simp
  from bound have "40 * k + 1 \<le> 2 ^ 27" by simp
  then have "(of_nat (40 * k + 1) :: rat) \<le> of_nat (2 ^ 27)" by (simp only: of_nat_le_iff)
  then have tub: "t \<le> 2 ^ 27 - 1" unfolding t' by simp
  have "3 * t / 2 ^ 53 \<le> eps" unfolding eps_def using tub by simp
  with ch(1,2) have lo: "t - eps \<le> d2" and hi: "d2 \<le> t + eps" by linarith+
  have eps: "0 < eps" "eps < 1 / 2 ^ 19" "eps < 1" unfolding eps_def by simp_all
  have "32 \<le> d2" using lo eps(3) tlb by linarith
  then have d2lb: "2 powi 5 \<le> d2" by simp
  have "d2 < 2 ^ 27" using hi eps(3) tub by linarith
  then have d2ub: "d2 < 2 powi 27" by simp
  have E5: "5 \<le> ilog2 d2" by (rule ilog2_ge[OF ch(3) d2lb])
  have E26: "ilog2 d2 \<le> 23 + int 3" using ilog2_less[OF ch(3) d2ub] by simp
  have "(2::rat) powi (5 - 24) \<le> 2 powi (ilog2 d2 - 24)"
    using E5 by (intro power_int_increasing) simp_all
  then have u: "1 / 2 ^ 19 \<le> (2::rat) powi (ilog2 d2 - 24)"
    by (simp add: power_int_minus_divide)
  have "\<bar>d2 - t\<bar> \<le> eps" using lo hi by linarith
  with u eps(2) have "\<bar>d2 - of_int (int (5 * k)) * 2 ^ 3\<bar> < 2 powi (ilog2 d2 - 24)"
    unfolding t by linarith
  then have "to_float d2 = of_int (int (5 * k)) * 2 ^ 3"
    by (rule to_float_exact[OF ch(3) E26])
  then have "to_float d2 = of_nat (40 * k)" unfolding t[symmetric] t' .
  moreover define K where "K = 40 * k"
  ultimately have "to_float d2 = of_nat K" by simp
  then have "nat (truncate (to_float d2)) = K"
    by (simp add: truncate_def)
  then have "nat (truncate (to_float d2)) = 40 * k"
    unfolding K_def .
  then show ?thesis
    by (simp add: position_ms_def d2_def)
qed

lemma position_ms_near:
  fixes m j :: nat
  assumes m: "0 < m" and j: "j \<le> 2" and bound: "10 * m < 3 * 2 ^ (25 + j)"
  shows "\<bar>3 * int (position_ms m) - 10 * int m\<bar> < 3 * 2 ^ j + 4"
proof -
  define t :: rat where "t = of_nat m * 10 / 3"
  define d2 where "d2 = to_double (to_double (of_nat m / 300) * 1000)"
  define f where "f = to_float d2"
  define eps :: rat where "eps = 3 / 2 ^ 26"
  define B :: rat where "B = 2 ^ (25 + j)"
  note ch = double_chain_error[OF m, folded t_def d2_def]
  have "(2::rat) ^ (25 + j) \<le> 2 ^ (25 + 2)"
    using j by (intro power_increasing) simp_all
  then have B27: "B \<le> 2 ^ 27" unfolding B_def by simp
  have Bpos: "0 < B" unfolding B_def by simp
  from bound have "10 * m + 1 \<le> 3 * 2 ^ (25 + j)" by simp
  then have "(of_nat (10 * m + 1) :: rat) \<le> of_nat (3 * 2 ^ (25 + j))"
    by (simp only: of_nat_le_iff)
  then have tub: "t \<le> B - 1 / 3" unfolding t_def B_def by (simp add: field_simps)
  have tpos: "0 < t" unfolding t_def using m by simp
  have "3 * t / 2 ^ 53 \<le> 3 * 2 ^ 27 / 2 ^ 53"
    using tub B27 by (intro divide_right_mono mult_left_mono) simp_all
  also have "\<dots> = eps" unfolding eps_def by simp
  finally have "3 * t / 2 ^ 53 \<le> eps" .
  with ch(1,2) have lo: "t - eps \<le> d2" and hi: "d2 \<le> t + eps" by linarith+
  have eps: "0 < eps" "eps < 1 / 3" unfolding eps_def by simp_all
  have "d2 < B" using hi eps(2) tub by linarith
  moreover have "(2::rat) powi int (25 + j) = 2 ^ (25 + j)" by (rule power_int_of_nat)
  ultimately have "d2 < 2 powi int (25 + j)" unfolding B_def by (simp only:)
  then have "d2 < 2 powi (25 + int j)" by (simp only: of_nat_add of_nat_numeral)
  then have E: "ilog2 d2 < 25 + int j" by (rule ilog2_less[OF ch(3)])
  have "(2::rat) powi (ilog2 d2 - (int 24 - 1)) \<le> 2 powi (1 + int j)"
    using E by (intro power_int_increasing) simp_all
  also have "\<dots> = 2 powi int (Suc j)" by simp
  also have "\<dots> = 2 ^ Suc j" by (rule power_int_of_nat)
  also have "\<dots> = 2 * 2 ^ j" by simp
  finally have "(2::rat) powi (ilog2 d2 - (int 24 - 1)) / 2 \<le> 2 ^ j" by simp
  with rn_half_ulp[OF ch(3), of 24] have "\<bar>rn 24 d2 - d2\<bar> \<le> 2 ^ j" by linarith
  then have fd: "d2 - 2 ^ j \<le> f" "f \<le> d2 + 2 ^ j"
    unfolding f_def to_float_def by linarith+
  have fpos: "0 \<le> f"
    unfolding f_def to_float_def using rn_pos_bounds(1)[OF ch(3), of 24] ch(3) by simp
  define p where "p = \<lfloor>f\<rfloor>"
  have pnn: "0 \<le> p" unfolding p_def using fpos by simp
  have pf: "of_int p \<le> f" "f < of_int p + 1" unfolding p_def by linarith+
  have pm: "position_ms m = nat p"
    unfolding position_ms_def Let_def d2_def[symmetric] f_def[symmetric] p_def
    using fpos by (simp add: truncate_def)
  have "\<bar>of_int p - t\<bar> < 2 ^ j + 1 + eps"
    using pf fd lo hi by linarith
  then have "\<bar>of_int p - t\<bar> < 2 ^ j + 4 / 3" using eps(2) by linarith
  then have "3 * \<bar>of_int p - t\<bar> < 3 * 2 ^ j + 4" by simp
  moreover have "3 * \<bar>of_int p - t\<bar> = \<bar>of_int (3 * p - 10 * int m)\<bar>"
  proof -
    have "3 * \<bar>of_int p - t\<bar> = \<bar>3::rat\<bar> * \<bar>of_int p - t\<bar>" by simp
    also have "\<dots> = \<bar>3 * (of_int p - t)\<bar>" by (rule abs_mult[symmetric])
    also have "3 * (of_int p - t) = (of_int (3 * p - 10 * int m) :: rat)"
      unfolding t_def by simp
    finally show ?thesis .
  qed
  ultimately have "\<bar>(of_int (3 * p - 10 * int m) :: rat)\<bar> < of_int (3 * 2 ^ j + 4)"
    by simp
  then have "\<bar>3 * p - 10 * int m\<bar> < 3 * 2 ^ j + 4"
    by (simp only: of_int_abs[symmetric] of_int_less_iff)
  then show ?thesis unfolding pm using pnn by simp
qed

subsection \<open>The frame sampler\<close>

text \<open>
  What \<^verbatim>\<open>process()\<close> appends to the frame and skip sequences depends on the packet count
  alone: when it returns, packet \<open>p\<close> of the input (counted from 1) has added a frame,
  stamped \<open>position_ms p\<close>, exactly when \<open>boundary p\<close> holds. Packets that are not CDG
  commands leave the image alone, and \<^verbatim>\<open>process()\<close> returns on an input made of them.
  Up to packet 20132662 the boundaries are the multiples of 12; packet 20132663 is one
  too.
\<close>

lemma fold_sampled:
  assumes "\<And>x d. sampled (f x d) = sampled d"
  shows "sampled (fold f xs d) = sampled d"
  using assms by (induction xs arbitrary: d) simp_all

lemma cmdMemoryPreset_sampled: "sampled (cmdMemoryPreset p d) = sampled d"
  by (simp add: cmdMemoryPreset_def sampled_def)

lemma cmdBorderPreset_sampled: "sampled (cmdBorderPreset p d) = sampled d"
  by (simp add: cmdBorderPreset_def sampled_def)

lemma cmdColors_sampled: "sampled (cmdColors p table d) = sampled d"
  unfolding cmdColors_def
  by (rule fold_sampled) (simp add: sampled_def Let_def)

lemma readCdgSubcodePacket_sampled:
  assumes "readCdgSubcodePacket h subCode d = Inr d'"
  shows "sampled d' = sampled d"
proof -
  have upd: "sampled (d''\<lparr>m_lastCmdWasMempreset := b\<rparr>) = sampled d''" for d'' b
    by (simp add: sampled_def)
  from assms show ?thesis
    by (auto simp add: readCdgSubcodePacket_def Let_def and_then_Inr_iff upd
        cmdMemoryPreset_sampled cmdBorderPreset_sampled cmdColors_sampled
        cmdDefineTransparent_def cmdTileBlock_sampled cmdScroll_sampled
        split: if_splits)
qed

lemma process_packet_sampled:
  fixes h subCode frameno d r
  assumes ret: "process_packet h subCode frameno d = Inr r"
  defines "p \<equiv> Suc (m_position d)"
  shows "m_position (snd r) = p"
    and "map startTime (m_frames (snd r)) =
           map startTime (m_frames d) @ map position_ms (filter boundary [p])"
    and "length (m_skip (snd r)) = length (m_skip d) + length (filter boundary [p])"
    and "m_cdgData (snd r) = m_cdgData d"
proof -
  from ret obtain d2 where d2: "readCdgSubcodePacket h subCode (d\<lparr>m_needupdate := False\<rparr>) = Inr d2"
    by (auto simp add: process_packet_def Let_def and_then_Inr_iff)
  have "sampled d2 = sampled (d\<lparr>m_needupdate := False\<rparr>)"
    using d2 by (rule readCdgSubcodePacket_sampled)
  then have s: "m_position d2 = m_position d" "m_frames d2 = m_frames d"
      "m_skip d2 = m_skip d" "m_cdgData d2 = m_cdgData d"
    by (simp_all add: sampled_def)
  from ret show "m_position (snd r) = p"
    and "map startTime (m_frames (snd r)) =
           map startTime (m_frames d) @ map position_ms (filter boundary [p])"
    and "length (m_skip (snd r)) = length (m_skip d) + length (filter boundary [p])"
    and "m_cdgData (snd r) = m_cdgData d"
    unfolding p_def
    by (auto simp add: process_packet_def Let_def d2 s position_def boundary_def
        and_then_Inr_iff split: if_splits)
qed

lemma last_packet:
  fixes n :: nat
  assumes "0 < n" "n < 24"
  shows "(n + 23) div 24 = Suc 0"
  using assms by (intro div_nat_eqI) simp_all

lemma packets_drop:
  assumes "input \<noteq> []"
  shows "(length input + 23) div 24 = Suc ((length (drop 24 input) + 23) div 24)"
proof (cases "24 \<le> length input")
  case True
  then obtain k where k: "length input = 24 + k"
    using le_Suc_ex by blast
  have "(24 + k + 23) div 24 = Suc ((k + 23) div 24)"
    by (simp add: add.assoc)
  then show ?thesis by (simp add: k)
next
  case False
  from assms have "0 < length input" by simp
  moreover from False have "length input < 24" by simp
  ultimately have "(length input + 23) div 24 = Suc 0"
    by (rule last_packet)
  with False show ?thesis by simp
qed

lemma process_loop_step:
  assumes "input \<noteq> []"
    and "process_packet h (readInto (take 24 input) subCode) frameno d = Inr r1"
  shows "process_loop h input subCode frameno d =
     process_loop h (drop 24 input) (readInto (take 24 input) subCode) (fst r1) (snd r1)"
  using assms by (subst process_loop.simps) (simp add: Let_def)

lemma process_loop_sampled:
  fixes h input subCode frameno d r
  defines "ps \<equiv> filter boundary [Suc (m_position d) ..< Suc (m_position d) + (length input + 23) div 24]"
  assumes ret: "process_loop h input subCode frameno d = Inr r"
  shows "map startTime (m_frames r) = map startTime (m_frames d) @ map position_ms ps
       \<and> length (m_skip r) = length (m_skip d) + length ps"
  using ret unfolding ps_def
proof (induction h input subCode frameno d rule: process_loop.induct)
  case (1 h input subCode frameno d)
  show ?case
  proof (cases "input = []")
    case True
    with "1.prems" show ?thesis by (subst (asm) process_loop.simps) simp
  next
    case False
    define subCode' where "subCode' = readInto (take 24 input) subCode"
    define n where "n = (length (drop 24 input) + 23) div 24"
    define p where "p = Suc (m_position d)"
    from "1.prems" False obtain r1 where r1: "process_packet h subCode' frameno d = Inr r1"
      and rest: "process_loop h (drop 24 input) subCode' (fst r1) (snd r1) = Inr r"
      by (subst (asm) process_loop.simps) (auto simp add: Let_def subCode'_def split: sum.splits)
    note pp = process_packet_sampled[OF r1, folded p_def]
    have IH: "map startTime (m_frames r) =
        map startTime (m_frames (snd r1)) @ map position_ms (filter boundary [Suc p ..< Suc p + n])
      \<and> length (m_skip r) =
        length (m_skip (snd r1)) + length (filter boundary [Suc p ..< Suc p + n])"
      using "1.IH"[OF False subCode'_def r1 rest] unfolding pp(1) n_def .
    have cnt: "(length input + 23) div 24 = Suc n"
      unfolding n_def by (rule packets_drop[OF False])
    have upt: "[p ..< p + Suc n] = p # [Suc p ..< Suc p + n]"
      by (simp add: upt_rec)
    show ?thesis
      unfolding cnt p_def[symmetric] upt
      using IH pp(2,3) by simp
  qed
qed

lemma process_sampled:
  fixes h uninit d d'
  defines "ps \<equiv> filter boundary [Suc (m_position d) ..< Suc (m_position d) + (length (m_cdgData d) + 23) div 24]"
  assumes ret: "process h uninit d = Inr d'"
  shows "map startTime (m_frames d') = map startTime (m_frames d) @ map position_ms ps"
    and "length (m_skip d') = length (m_skip d) + length ps"
proof -
  from ret obtain d1 where d1: "process_loop h (m_cdgData d) uninit 0 (d\<lparr>m_needupdate := False\<rparr>) = Inr d1"
    and d': "d' = d1\<lparr>m_cdgData := [], m_isOpen := True\<rparr>"
    by (auto simp add: process_def Let_def and_then_Inr_iff)
  from process_loop_sampled[OF d1]
  show "map startTime (m_frames d') = map startTime (m_frames d) @ map position_ms ps"
    and "length (m_skip d') = length (m_skip d) + length ps"
    unfolding ps_def d' by simp_all
qed

lemma readCdgSubcodePacket_idle:
  assumes "command subCode AND m_subcodeMask \<noteq> m_subcodeCommand"
  shows "readCdgSubcodePacket h subCode d = Inr d"
  using assms by (simp add: readCdgSubcodePacket_def)

lemma process_packet_idle:
  assumes idle: "command subCode AND m_subcodeMask \<noteq> m_subcodeCommand"
    and safe: "300 * m_curVOffset d + m_curHOffset d \<le> 3606"
  shows "\<exists>r. process_packet h subCode frameno d = Inr r \<and>
           m_image (snd r) = m_image d \<and>
           m_skip (snd r) = m_skip d @ replicate (length (filter boundary [Suc (m_position d)])) True \<and>
           m_position (snd r) = Suc (m_position d) \<and>
           m_curVOffset (snd r) = m_curVOffset d \<and> m_curHOffset (snd r) = m_curHOffset d"
proof -
  define d4 where "d4 = d\<lparr>m_needupdate := False, m_position := m_position d + 1\<rparr>"
  have "300 * m_curVOffset d4 + m_curHOffset d4 \<le> 3606"
    using safe by (simp add: d4_def)
  from getSafeArea_returns[OF this] obtain image where image: "getSafeArea d4 = Inr image" ..
  show ?thesis
    using image
    by (simp add: process_packet_def readCdgSubcodePacket_idle[OF idle] Let_def
        position_def boundary_def d4_def)
qed

lemma zero_packet_idle:
  assumes "0 < n"
  shows "command (readInto (take 24 (replicate n 0)) subCode) AND m_subcodeMask \<noteq> m_subcodeCommand"
  using assms by (simp add: command_def readInto_def m_subcodeMask_def m_subcodeCommand_def)

lemma process_loop_zeros:
  assumes "300 * m_curVOffset d + m_curHOffset d \<le> 3606"
  shows "\<exists>r. process_loop h (replicate n 0) subCode frameno d = Inr r \<and>
           m_image r = m_image d \<and>
           m_skip r = m_skip d @ replicate (length (filter boundary
              [Suc (m_position d) ..< Suc (m_position d) + (n + 23) div 24])) True"
  using assms
proof (induction n arbitrary: subCode frameno d rule: less_induct)
  case (less n)
  show ?case
  proof (cases "n = 0")
    case True
    then show ?thesis by (subst process_loop.simps) simp
  next
    case False
    define subCode' where "subCode' = readInto (take 24 (replicate n 0)) subCode"
    define p where "p = Suc (m_position d)"
    define k where "k = (n - 24 + 23) div 24"
    have idle: "command subCode' AND m_subcodeMask \<noteq> m_subcodeCommand"
      unfolding subCode'_def using False by (intro zero_packet_idle) simp
    from process_packet_idle[OF idle less.prems, of h frameno, folded p_def]
    obtain r1 where r1: "process_packet h subCode' frameno d = Inr r1"
      and pp: "m_image (snd r1) = m_image d"
        "m_skip (snd r1) = m_skip d @ replicate (length (filter boundary [p])) True"
        "m_position (snd r1) = p"
        "m_curVOffset (snd r1) = m_curVOffset d" "m_curHOffset (snd r1) = m_curHOffset d"
      by blast
    have "replicate n (0::byte) \<noteq> []" using False by simp
    from process_loop_step[OF this r1[unfolded subCode'_def]]
    have unf: "process_loop h (replicate n 0) subCode frameno d =
        process_loop h (replicate (n - 24) 0) subCode' (fst r1) (snd r1)"
      unfolding subCode'_def by simp
    have lt: "n - 24 < n" using False by simp
    have safe: "300 * m_curVOffset (snd r1) + m_curHOffset (snd r1) \<le> 3606"
      using less.prems by (simp add: pp)
    from less.IH[OF lt safe, of subCode' "fst r1", unfolded pp(1,3), folded k_def]
    obtain r where r: "process_loop h (replicate (n - 24) 0) subCode' (fst r1) (snd r1) = Inr r"
      and IH: "m_image r = m_image d"
        "m_skip r = m_skip (snd r1) @ replicate (length (filter boundary [Suc p ..< Suc p + k])) True"
      by blast
    have "replicate n (0::byte) \<noteq> []" using False by simp
    from packets_drop[OF this] have cnt: "(n + 23) div 24 = Suc k"
      unfolding k_def by simp
    have upt: "[p ..< p + Suc k] = p # [Suc p ..< Suc p + k]"
      by (simp add: upt_rec)
    show ?thesis
      unfolding unf cnt p_def[symmetric] upt
      using r IH pp(2) by (simp add: replicate_add[symmetric])
  qed
qed

lemma div12_Suc:
  fixes n :: nat
  shows "Suc n mod 12 = 0 \<Longrightarrow> Suc n div 12 = Suc (n div 12)"
    and "Suc n mod 12 \<noteq> 0 \<Longrightarrow> Suc n div 12 = n div 12"
proof -
  have e: "Suc n div 12 = (if Suc n mod 12 = 0 then Suc (n div 12) else n div 12)"
    by (rule div_Suc)
  show "Suc n mod 12 = 0 \<Longrightarrow> Suc n div 12 = Suc (n div 12)" by (simp add: e)
  show "Suc n mod 12 \<noteq> 0 \<Longrightarrow> Suc n div 12 = n div 12" by (simp add: e)
qed

lemma boundary_multiple:
  assumes m: "0 < m" and bound: "10 * m < 3 * 2 ^ 26" and b: "boundary m"
  shows "m mod 12 = 0"
proof -
  from position_ms_near[OF m, of 1] bound
  have n: "\<bar>3 * int (position_ms m) - 10 * int m\<bar> < 10" by simp
  from b have "40 dvd position_ms m" unfolding boundary_def by (simp add: mod_eq_0_iff_dvd)
  then obtain q where q: "position_ms m = 40 * q" ..
  from n have "\<bar>120 * int q - 10 * int m\<bar> < 10" unfolding q by simp
  then have "int m = 12 * int q" by linarith
  then have "int m = int (12 * q)" by simp
  then have "m = 12 * q" by (simp only: of_nat_eq_iff)
  then show ?thesis by simp
qed

lemma boundary_near_multiple:
  assumes m: "0 < m" and bound: "10 * m < 3 * 2 ^ 27" and b: "boundary m"
  shows "m mod 12 = 0 \<or> m mod 12 = 1 \<or> m mod 12 = 11"
proof -
  from position_ms_near[OF m, of 2] bound
  have n: "\<bar>3 * int (position_ms m) - 10 * int m\<bar> < 16" by simp
  from b have "40 dvd position_ms m" unfolding boundary_def by (simp add: mod_eq_0_iff_dvd)
  then obtain q where q: "position_ms m = 40 * q" ..
  from b have "0 < q" unfolding boundary_def q by simp
  then obtain q' where q': "q = Suc q'" by (cases q) simp_all
  from n have "\<bar>120 * int q - 10 * int m\<bar> < 16" unfolding q by simp
  then have "int m = 12 * int q \<or> int m = 12 * int q + 1 \<or> int m + 1 = 12 * int q"
    by linarith
  then have "m = 12 * q \<or> m = 12 * q + 1 \<or> m + 1 = 12 * q"
    by linarith
  then consider "m = 12 * q" | "m = 12 * q + 1" | "m = 12 * q' + 11"
    unfolding q' by auto
  then show ?thesis
  proof cases
    case 1
    then show ?thesis by simp
  next
    case 2
    then show ?thesis by simp
  next
    case 3
    then show ?thesis by simp
  qed
qed

lemma position_ms_multiple:
  assumes "0 < m" "m \<le> 20132662" "m mod 12 = 0"
  shows "position_ms m = m div 12 * 40"
proof -
  define k where "k = m div 12"
  have "m = 12 * (m div 12) + m mod 12" by simp
  with assms(3) have mk: "m = 12 * k" unfolding k_def by simp
  with assms(1) have k: "0 < k" by simp
  from assms(2) have "40 * k < 2 ^ 27" unfolding mk by simp
  from position_ms_boundary[OF k this] show ?thesis
    unfolding k_def[symmetric] mk by simp
qed

lemma boundary_iff:
  assumes m: "0 < m" and bound: "m \<le> 20132662"
  shows "boundary m \<longleftrightarrow> m mod 12 = 0"
proof
  assume b: "boundary m"
  show "m mod 12 = 0"
  proof (cases "10 * m < 3 * 2 ^ 26")
    case True
    with m b show ?thesis by (intro boundary_multiple)
  next
    case False
    then have "20132660 \<le> m" by simp
    with bound consider "m = 20132660" | "m = 20132661" | "m = 20132662" by linarith
    then have r: "m mod 12 = 8 \<or> m mod 12 = 9 \<or> m mod 12 = 10"
      by cases simp_all
    from bound have "10 * m < 3 * 2 ^ 27" by simp
    from boundary_near_multiple[OF m this b] r show ?thesis by auto
  qed
next
  assume z: "m mod 12 = 0"
  have p: "position_ms m = m div 12 * 40"
    using m bound z by (rule position_ms_multiple)
  have "m = 12 * (m div 12) + m mod 12" by simp
  with z m have "0 < m div 12" by simp
  then show "boundary m" unfolding boundary_def p by simp
qed

lemma sampled_times:
  assumes "n \<le> 20132662"
  shows "map position_ms (filter boundary [Suc 0 ..< Suc 0 + n]) = map (\<lambda>i. (i + 1) * 40) [0 ..< n div 12]"
  using assms
proof (induction n)
  case 0
  then show ?case by simp
next
  case (Suc n)
  then have IH: "map position_ms (filter boundary [Suc 0 ..< Suc 0 + n]) = map (\<lambda>i. (i + 1) * 40) [0 ..< n div 12]"
    by simp
  have b: "boundary (Suc n) \<longleftrightarrow> Suc n mod 12 = 0"
    using Suc.prems by (intro boundary_iff) simp_all
  show ?case
  proof (cases "Suc n mod 12 = 0")
    case True
    then have d: "Suc n div 12 = Suc (n div 12)" by (rule div12_Suc)
    have "position_ms (Suc n) = Suc n div 12 * 40"
      using Suc.prems True by (intro position_ms_multiple) simp_all
    then show ?thesis using True b IH by (simp add: d)
  next
    case False
    then have d: "Suc n div 12 = n div 12" by (rule div12_Suc)
    show ?thesis using False b IH by (simp add: d)
  qed
qed

lemma position_ms_20132663: "position_ms 20132663 = 67108880"
proof -
  define t :: rat where "t = of_nat 20132663 * 10 / 3"
  define d2 where "d2 = to_double (to_double (of_nat 20132663 / 300) * 1000)"
  have m: "0 < (20132663::nat)" by simp
  note ch = double_chain_error[OF m, folded t_def d2_def]
  have t: "t = 201326630 / 3" unfolding t_def by simp
  have "3 * t / 2 ^ 53 \<le> 1 / 3" unfolding t by simp
  with ch(1,2) have lo: "t - 1 / 3 \<le> d2" and hi: "d2 \<le> t + 1 / 3" by linarith+
  have "2 ^ 26 \<le> d2" using lo unfolding t by simp
  then have d2lb: "2 powi 26 \<le> d2" by simp
  have "d2 < 2 ^ 27" using hi unfolding t by simp
  then have d2ub: "d2 < 2 powi 27" by simp
  have E: "ilog2 d2 = 26"
    using ilog2_ge[OF ch(3) d2lb] ilog2_less[OF ch(3) d2ub] by simp
  have "67108876 < d2" "d2 < 67108884"
    using lo hi unfolding t by simp_all
  then have "\<bar>d2 - of_int 8388610 * 2 ^ 3\<bar> < 4"
    by (simp add: abs_less_iff)
  then have "\<bar>d2 - of_int 8388610 * 2 ^ 3\<bar> < 2 powi (ilog2 d2 - 24)"
    unfolding E by simp
  then have "to_float d2 = of_int 8388610 * 2 ^ 3"
    by (intro to_float_exact[OF ch(3)]) (simp_all add: E)
  then have "nat (truncate (to_float d2)) = 67108880"
    by (simp add: truncate_def)
  then show ?thesis
    by (simp add: position_ms_def d2_def)
qed

lemma boundary_20132663: "boundary 20132663"
  unfolding boundary_def position_ms_20132663 by simp

lemma frames_20132663:
  "map position_ms (filter boundary [Suc 0 ..< Suc 0 + 20132663])
     = map (\<lambda>i. (i + 1) * 40) [0 ..< 1677721] @ [67108880]"
proof -
  have app: "[Suc 0 ..< Suc 0 + 20132663] = [Suc 0 ..< Suc 0 + 20132662] @ [20132663]"
  proof -
    have "[Suc 0 ..< Suc (Suc 0 + 20132662)] = [Suc 0 ..< Suc 0 + 20132662] @ [Suc 0 + 20132662]"
      by (rule upt_Suc_append) simp
    then show ?thesis by simp
  qed
  have "(20132662::nat) div 12 = 1677721" by simp
  with sampled_times[of 20132662]
  have "map position_ms (filter boundary [Suc 0 ..< Suc 0 + 20132662])
      = map (\<lambda>i. (i + 1) * 40) [0 ..< 1677721]" by simp
  then show ?thesis
    unfolding app using boundary_20132663 position_ms_20132663 by simp
qed

lemma boundary_2_13: "filter boundary [2..<13] = [12]"
  by (simp add: upt_rec_numeral boundary_iff)

subsection \<open>Lookup by time\<close>

lemma unat_max_64: "unat (- 1 :: 64 word) = 2 ^ 64 - 1"
  by (simp add: unsigned_minus_1_eq_mask mask_eq_exp_minus_1)

lemma floor_half: "\<lfloor>1 / 2 :: rat\<rfloor> = 0"
  by (rule floor_unique) simp_all

lemma half_tempo_rounding:
  "to_float 50 = 50" "to_double (1 / 2) = 1 / 2" "to_double 20 = 20"
  by code_simp+

lemma rn_nonneg_bounds:
  assumes "0 \<le> q" "1 \<le> p"
  shows "0 \<le> rn p q" "rn p q \<le> 2 * q"
proof -
  show "0 \<le> rn p q"
  proof (cases "q = 0")
    case True
    then show ?thesis by (simp add: rn_zero)
  next
    case False
    with assms(1) have "0 < q" by simp
    from rn_pos_bounds(1)[OF this assms(2)] \<open>0 < q\<close> show ?thesis by simp
  qed
  show "rn p q \<le> 2 * q"
  proof (cases "q = 0")
    case True
    then show ?thesis by (simp add: rn_zero)
  next
    case False
    with assms(1) have "0 < q" by simp
    from rn_pos_bounds(2)[OF this assms(2)] show ?thesis .
  qed
qed

lemma frame_index_defined:
  fixes tempo ms :: "32 word"
  assumes t: "0 \<le> sint tempo"
  defines "x \<equiv> to_double (to_double (of_nat (unat ms)
                    * to_double (to_float (of_int (sint tempo)) / 100)) / 40)"
  shows "0 \<le> x" "x < 2 ^ 64"
proof -
  define T :: rat where "T = of_int (sint tempo)"
  define M :: rat where "M = of_nat (unat ms)"
  define a where "a = to_float T"
  define b where "b = to_double (a / 100)"
  define c where "c = to_double (M * b)"
  have x: "x = to_double (c / 40)" unfolding x_def c_def b_def a_def T_def M_def ..
  have "sint tempo < 2 ^ 31" using sint_lt[of tempo] by simp
  then have "T < of_int (2 ^ 31)" unfolding T_def by (simp only: of_int_less_iff)
  moreover have "(0::rat) \<le> of_int (sint tempo)" using t by (simp only: of_int_0_le_iff)
  ultimately have T: "0 \<le> T" "T \<le> 2 ^ 31" unfolding T_def by simp_all
  have "unat ms < 2 ^ 32" using unsigned_less[of ms, where ?'a = nat] by simp
  then have "M < of_nat (2 ^ 32)" unfolding M_def by (simp only: of_nat_less_iff)
  moreover have "(of_nat (2 ^ 32) :: rat) = 2 ^ 32" by simp
  ultimately have "M \<le> 2 ^ 32" by (simp only: less_imp_le)
  moreover have "0 \<le> M" unfolding M_def by (rule of_nat_0_le_iff)
  ultimately have M: "0 \<le> M" "M \<le> 2 ^ 32" by simp_all
  have a: "0 \<le> a" "a \<le> 2 ^ 32"
    unfolding a_def to_float_def using rn_nonneg_bounds[OF T(1), of 24] T(2) by simp_all
  have "0 \<le> a / 100" using a(1) by simp
  from rn_nonneg_bounds[OF this, of 53] a(2) have b: "0 \<le> b" "b \<le> 2 ^ 32"
    unfolding b_def to_double_def by simp_all
  have "M * b \<le> 2 ^ 32 * 2 ^ 32"
    using M b by (intro mult_mono) simp_all
  moreover have "0 \<le> M * b" using M(1) b(1) by (rule mult_nonneg_nonneg)
  ultimately have mb: "0 \<le> M * b" "M * b \<le> 2 ^ 32 * 2 ^ 32" by simp_all
  from rn_nonneg_bounds[OF mb(1), of 53] mb(2) have c: "0 \<le> c" "c \<le> 2 ^ 65"
    unfolding c_def to_double_def by simp_all
  have "0 \<le> c / 40" using c(1) by simp
  from rn_nonneg_bounds[OF this, of 53] c(2) show "0 \<le> x" "x < 2 ^ 64"
    unfolding x to_double_def by simp_all
qed

subsection \<open>Border preset\<close>

text \<open>
  Claim C7. A Border Preset sets every pixel of lines 0 to 11 and of lines 203 to 215, and
  of columns 0 to 5 and 294 to 299 of the lines between, to the colour of the payload, and
  leaves every pixel in columns 6 to 293 of lines 12 to 202 as it was, whatever the
  framebuffer held before.
\<close>

theorem border_preset_pixels:
  assumes "x < 300" "y < 216"
  shows "bits (m_image (cmdBorderPreset borderPreset d)) (scanLine y + x) =
     (if y < 12 \<or> 202 < y \<or> x < 6 \<or> 294 \<le> x then bp_color borderPreset
      else bits (m_image d) (scanLine y + x))"
proof -
  have "(y * 300 + x) div 300 = y" "(y * 300 + x) mod 300 = x" "y * 300 + x < 216 * 300"
    using assms by simp_all
  then show ?thesis
    by (simp add: cmdBorderPreset_def fold_borderLine scanLine_def bytesPerLine_def)
qed

theorem border_preset_pixels_witness:
  "(6::nat) < 300 \<and> (203::nat) < 216 \<and>
   bits (m_image (cmdBorderPreset \<lparr>bp_color = 7\<rparr> CdgParser_new)) (scanLine 203 + 6) = 7 \<and>
   (293::nat) < 300 \<and> (202::nat) < 216 \<and>
   bits (m_image (cmdBorderPreset \<lparr>bp_color = 7\<rparr> CdgParser_new)) (scanLine 202 + 293) = 0"
  using border_preset_pixels [of 6 203 "\<lparr>bp_color = 7\<rparr>" CdgParser_new]
    border_preset_pixels [of 293 202 "\<lparr>bp_color = 7\<rparr>" CdgParser_new]
  by (simp add: CdgParser_new_def reset_def fill_def memset_def)

subsection \<open>Scrolling\<close>

text \<open>
  Claim C9 says that a Scroll Copy left by 6 pixels followed by a Scroll Copy right by 6
  pixels restores the framebuffer. Each of the two shifts moves the 294 bytes that stay in
  a line with one call of \<^verbatim>\<open>memcpy\<close> whose source and destination lie 6 bytes apart in
  that line: the ranges overlap in 288 bytes and the call is undefined, for every
  framebuffer, already in line 0.
\<close>

theorem scroll_copy_overlapping:
  "cmdScroll \<lparr>sc_color = c, hSCmd = 2, hSOffset = h, vSCmd = 0, vSOffset = v\<rparr> ScrollCopy d
     = Inl OverlappingCopy \<and>
   cmdScroll \<lparr>sc_color = c, hSCmd = 1, hSOffset = h, vSCmd = 0, vSOffset = v\<rparr> ScrollCopy d
     = Inl OverlappingCopy"
proof -
  have lines: "[0..<216] = 0 # [Suc 0..<216]"
    by (rule upt_conv_Cons) simp
  have l: "scrollLeftLine ScrollCopy c 0 mem = Inl OverlappingCopy" for mem
    by (simp add: scrollLeftLine_def memcpy_def object_size_def scanLine_def bytesPerLine_def
        m_bytesPerPixel_def Let_def)
  have r: "scrollRightLine ScrollCopy c 0 mem = Inl OverlappingCopy" for mem
    by (simp add: scrollRightLine_def memcpy_def object_size_def scanLine_def bytesPerLine_def
        m_bytesPerPixel_def Let_def)
  show ?thesis
    by (simp add: cmdScroll_def Let_def lines l r)
qed

text \<open>
  Claim C1 says that a scroll command sets both fine offsets from the packet. In
  \<^verbatim>\<open>cmdScroll\<close> the assignment to \<^verbatim>\<open>m_curHOffset\<close> is the body of
  \<^verbatim>\<open>if (m_curVOffset != scrollCmdData.vSOffset)\<close>: on a new decoder (both offsets 0) a
  scroll command, Preset or Copy, with no coarse shift, \<open>hSOffset = 3\<close> and
  \<open>vSOffset = 0\<close> returns and leaves the horizontal offset at 0.
\<close>

theorem scroll_keeps_hOffset:
  "\<exists>d'. cmdScroll \<lparr>sc_color = 0, hSCmd = 0, hSOffset = 3, vSCmd = 0, vSOffset = 0\<rparr>
           type CdgParser_new = Inr d' \<and>
        m_curHOffset d' = 0"
  by (simp add: cmdScroll_def CdgParser_new_def reset_def Let_def)

subsection \<open>Memory preset\<close>

text \<open>
  Claim C6 says that a Memory Preset with a nonzero repeat count that follows another
  Memory Preset leaves the framebuffer unchanged. The dispatcher selects the handler by
  \<^verbatim>\<open>instruction & m_subcodeMask\<close> but ends with
  \<^verbatim>\<open>m_lastCmdWasMempreset = (subCode.instruction == cdg::CmdMemoryPreset)\<close>, without the
  mask. Two packets in a row on a new decoder: a Memory Preset to colour 3 whose
  instruction byte is 0x41 (bit 6 set), then a Memory Preset to colour 5 with repeat 1.
  Both are dispatched as Memory Preset, the flag is false after the first, and the second
  fills the framebuffer with 5 and marks a change.
\<close>

theorem memory_preset_after_unmasked:
  "(let p1 = readInto ([9, 0x41, 0, 0, 3, 0] @ replicate 18 0) u;
        p2 = readInto ([9, 1, 0, 0, 5, 1] @ replicate 18 0) u
    in \<exists>d1 d2.
       readCdgSubcodePacket h p1 CdgParser_new = Inr d1 \<and>
       readCdgSubcodePacket h p2 (d1\<lparr>m_needupdate := False\<rparr>) = Inr d2 \<and>
       instruction p1 AND m_subcodeMask = CmdMemoryPreset \<and>
       instruction p2 AND m_subcodeMask = CmdMemoryPreset \<and>
       mp_repeat (MemoryPresetData (data p2)) = 1 \<and>
       bits (m_image d1) 0 = 3 \<and>
       \<not> m_lastCmdWasMempreset d1 \<and>
       bits (m_image d2) 0 = 5 \<and>
       m_needupdate d2)"
  by (simp add: Let_def readInto_def readCdgSubcodePacket_def command_def instruction_def
      data_def m_subcodeMask_def m_subcodeCommand_def CmdMemoryPreset_def MemoryPresetData_def
      cmdMemoryPreset_def CdgParser_new_def reset_def fill_def memset_def bytesPerLine_def)

subsection \<open>Frames and their start times\<close>

lemma open_bytes_state:
  fixes bs d
  defines "d0 \<equiv> fst (open_bytes bs False d)"
  shows "m_position d0 = 0" "m_frames d0 = []" "m_skip d0 = []" "m_cdgData d0 = bs"
    "m_curVOffset d0 = 0" "m_curHOffset d0 = 0" "bits (m_image d0) 0 = 0"
  by (simp_all add: d0_def open_bytes_def Let_def reset_def fill_def memset_def)

lemma process_zeros:
  assumes "300 * m_curVOffset d + m_curHOffset d \<le> 3606" "m_cdgData d = replicate n 0"
  shows "\<exists>d'. process h uninit d = Inr d'"
proof -
  have "300 * m_curVOffset (d\<lparr>m_needupdate := False\<rparr>)
      + m_curHOffset (d\<lparr>m_needupdate := False\<rparr>) \<le> 3606"
    using assms(1) by simp
  from process_loop_zeros[OF this, of h n uninit 0]
  show ?thesis by (auto simp add: process_def Let_def assms(2))
qed

text \<open>
  For inputs of whole packets, at most 20132662 of them: if \<^verbatim>\<open>process()\<close> returns, the
  frame sequence and the skip sequence have length \<open>packets div 12\<close> and frame \<open>i\<close> starts
  at \<open>(i + 1) * 40\<close> ms.
\<close>

lemma process_frames:
  fixes h uninit d bs d'
  assumes ret: "process h uninit (fst (open_bytes bs False d)) = Inr d'"
    and whole: "length bs mod 24 = 0" and bound: "length bs div 24 \<le> 20132662"
  shows "length (m_frames d') = length bs div 24 div 12"
    and "length (m_skip d') = length bs div 24 div 12"
    and "map startTime (m_frames d') = map (\<lambda>i. (i + 1) * 40) [0 ..< length bs div 24 div 12]"
proof -
  define d0 where "d0 = fst (open_bytes bs False d)"
  note d0 = open_bytes_state[of bs d, folded d0_def]
  have "length bs = 24 * (length bs div 24) + length bs mod 24" by simp
  with whole obtain k where k: "length bs = 24 * k" by simp
  have n: "(length bs + 23) div 24 = length bs div 24"
    unfolding k by simp
  let ?ps = "filter boundary [Suc 0 ..< Suc 0 + length bs div 24]"
  have t: "map position_ms ?ps = map (\<lambda>i. (i + 1) * 40) [0 ..< length bs div 24 div 12]"
    by (rule sampled_times[OF bound])
  then have "length (map position_ms ?ps) = length (map (\<lambda>i. (i + 1) * 40) [0 ..< length bs div 24 div 12])"
    by (rule arg_cong)
  then have l: "length ?ps = length bs div 24 div 12" by simp
  note ps = process_sampled[OF ret[folded d0_def], unfolded d0 n]
  show f: "map startTime (m_frames d') = map (\<lambda>i. (i + 1) * 40) [0 ..< length bs div 24 div 12]"
    using ps(1) t by simp
  then have "length (map startTime (m_frames d')) = length (map (\<lambda>i. (i + 1) * 40) [0 ..< length bs div 24 div 12])"
    by (rule arg_cong)
  then show "length (m_frames d') = length bs div 24 div 12" by simp
  show "length (m_skip d') = length bs div 24 div 12"
    using ps(2) l by simp
qed

text \<open>
  The loop of \<^verbatim>\<open>process()\<close> runs while \<^verbatim>\<open>read\<close> returns more than 0 bytes, so what is
  left of the input after the last whole packet is processed as one more packet: 287 bytes
  (11 packets and 23 bytes) yield a frame.
\<close>

lemma process_partial_packet:
  "\<exists>d'. process h uninit (fst (open_bytes (replicate 287 0) False d)) = Inr d' \<and>
        map startTime (m_frames d') = [40] \<and> (287::nat) div 24 = 11"
proof -
  define d0 where "d0 = fst (open_bytes (replicate 287 0) False d)"
  note d0 = open_bytes_state[of "replicate 287 0" d, folded d0_def]
  have "300 * m_curVOffset d0 + m_curHOffset d0 \<le> 3606" by (simp add: d0)
  from process_zeros[OF this d0(4), of h uninit]
  obtain d' where ret: "process h uninit d0 = Inr d'" ..
  have n: "(length (replicate 287 (0::byte)) + 23) div 24 = 12" by simp
  have "map position_ms (filter boundary [Suc 0 ..< Suc 0 + 12]) = [40]"
    using sampled_times[of 12] by simp
  with process_sampled(1)[OF ret, unfolded d0 n]
  have "map startTime (m_frames d') = [40]" by simp
  with ret show ?thesis unfolding d0_def by auto
qed

text \<open>
  Claim C8 says that after \<^verbatim>\<open>process()\<close> the frame sequence and the skip sequence have
  length \<open>packets div 12\<close>. \<^verbatim>\<open>position()\<close> stores the position in a \<^verbatim>\<open>float\<close>, and from
  \<open>2 ^ 26\<close> ms on a \<^verbatim>\<open>float\<close> is a multiple of 8. Packet 20132663 is not a multiple of
  12, yet its position, 67108876.67 ms, rounds to 67108880, a multiple of 40, and a frame
  is sampled there: an input of 20132663 packets of zero bytes, opened and processed on
  any decoder, yields 1677722 frames and skip flags, one more than \<open>20132663 div 12\<close>.
\<close>

theorem process_frames_float:
  "\<exists>d'. process h uninit (fst (open_bytes (replicate (24 * 20132663) 0) False d)) = Inr d' \<and>
        length (m_frames d') = 1677722 \<and>
        length (m_skip d') = 1677722 \<and>
        startTime (last (m_frames d')) = 67108880 \<and>
        position_ms 20132663 = 67108880 \<and>
        length (replicate (24 * 20132663) (0::byte)) div 24 div 12 = 1677721"
proof -
  define bs :: "byte list" where "bs = replicate (24 * 20132663) 0"
  define d0 where "d0 = fst (open_bytes bs False d)"
  note d0 = open_bytes_state[of bs d, folded d0_def]
  have "300 * m_curVOffset d0 + m_curHOffset d0 \<le> 3606" by (simp add: d0)
  from process_zeros[OF this, of "24 * 20132663" h uninit] d0(4)
  obtain d' where ret: "process h uninit d0 = Inr d'" unfolding bs_def by auto
  have n: "(length bs + 23) div 24 = 20132663" unfolding bs_def by simp
  note ps = process_sampled[OF ret, unfolded d0 n]
  have t: "map startTime (m_frames d') = map (\<lambda>i. (i + 1) * 40) [0 ..< 1677721] @ [67108880]"
    using ps(1) frames_20132663 by simp
  then have "length (map startTime (m_frames d'))
      = length (map (\<lambda>i. (i + 1) * 40) [0 ..< 1677721] @ [67108880::nat])"
    by (rule arg_cong)
  then have lf: "length (m_frames d') = 1677722" by simp
  have "length (map position_ms (filter boundary [Suc 0 ..< Suc 0 + 20132663]))
      = length (map (\<lambda>i. (i + 1) * 40) [0 ..< 1677721] @ [67108880::nat])"
    using frames_20132663 by (rule arg_cong)
  then have "length (filter boundary [Suc 0 ..< Suc 0 + 20132663]) = 1677722" by simp
  with ps(2) have ls: "length (m_skip d') = 1677722" by simp
  from lf have ne: "m_frames d' \<noteq> []" by auto
  have "startTime (last (m_frames d')) = last (map startTime (m_frames d'))"
    using ne by (simp add: last_map)
  also have "\<dots> = 67108880" unfolding t by simp
  finally have "startTime (last (m_frames d')) = 67108880" .
  moreover have "length bs div 24 div 12 = 1677721" unfolding bs_def by simp
  ultimately show ?thesis
    using ret lf ls position_ms_20132663 unfolding d0_def bs_def by blast
qed

subsection \<open>The skip flags\<close>

text \<open>
  Claim C2 says that a true skip flag means that no command since the previous frame
  boundary caused a visible change. The loop of \<^verbatim>\<open>process()\<close> clears \<^verbatim>\<open>m_needupdate\<close>
  before every packet, so the flag pushed at a boundary reports the last packet alone.
  Twelve packets on any decoder: a Memory Preset to colour 5, then eleven packets of zero
  bytes (no CDG command). The first packet marks a change and turns pixel 0 from 0 to 5;
  the one frame sampled after packet 12 is flagged skippable.
\<close>

theorem skip_ignores_earlier_packets:
  "(let input = ([9, 1, 0, 0, 5, 0] @ replicate 18 0) @ replicate (11 * 24) 0;
        d0 = fst (open_bytes input False d)
    in \<exists>d1 d'.
       readCdgSubcodePacket h (readInto (take 24 input) u) (d0\<lparr>m_needupdate := False\<rparr>)
         = Inr d1 \<and>
       m_needupdate d1 \<and>
       process h u d0 = Inr d' \<and>
       bits (m_image d0) 0 = 0 \<and>
       bits (m_image d') 0 = 5 \<and>
       m_skip d' = [True])"
proof -
  define p1 :: "byte list" where "p1 = [9, 1, 0, 0, 5, 0] @ replicate 18 0"
  define input where "input = p1 @ replicate (11 * 24) 0"
  define d0 where "d0 = fst (open_bytes input False d)"
  define dd where "dd = d0\<lparr>m_needupdate := False\<rparr>"
  define sc where "sc = readInto p1 u"
  define d2 where "d2 = (cmdMemoryPreset (MemoryPresetData (data sc)) dd)
      \<lparr>m_lastCmdWasMempreset := True, m_lastCmdWasMempreset := (instruction sc = CmdMemoryPreset)\<rparr>"
  have p1: "length p1 = 24" "take 24 input = p1" "drop 24 input = replicate 264 0" "input \<noteq> []"
    unfolding input_def p1_def by simp_all
  note d0 = open_bytes_state[of input d, folded d0_def]
  have rd: "readCdgSubcodePacket h sc dd = Inr d2"
    unfolding d2_def sc_def p1_def
    by (simp add: Let_def readInto_def readCdgSubcodePacket_def command_def
        instruction_def m_subcodeMask_def m_subcodeCommand_def CmdMemoryPreset_def)
  have d2: "m_needupdate d2" "bits (m_image d2) 0 = 5" "m_skip d2 = []" "m_position d2 = 0"
    "m_curVOffset d2 = 0" "m_curHOffset d2 = 0"
    unfolding d2_def sc_def dd_def p1_def
    by (simp_all add: d0 Let_def readInto_def instruction_def data_def
        MemoryPresetData_def cmdMemoryPreset_def fill_def memset_def bytesPerLine_def)
  have nb: "\<not> (position_ms (Suc 0) mod 40 = 0 \<and> 40 \<le> position_ms (Suc 0))"
    using boundary_iff[of "Suc 0"] by (simp add: boundary_def)
  define r where "r = (0::nat, d2\<lparr>m_lastCDGCommandMS := 0 * 40, m_position := m_position d2 + 1\<rparr>)"
  have idem: "dd\<lparr>m_needupdate := False\<rparr> = dd" by (simp add: dd_def)
  have pk: "process_packet h sc 0 dd = Inr r"
    using d2(1,4)
    by (simp add: process_packet_def Let_def idem rd position_def nb r_def)
  have r: "m_image (snd r) = m_image d2" "m_skip (snd r) = []" "m_position (snd r) = 1"
    "300 * m_curVOffset (snd r) + m_curHOffset (snd r) \<le> 3606"
    unfolding r_def using d2 by simp_all
  from process_loop_step[OF p1(4), of h u 0 dd r] pk
  have unf: "process_loop h input u 0 dd = process_loop h (replicate 264 0) sc (fst r) (snd r)"
    by (simp add: p1 sc_def)
  have b: "filter boundary [Suc (Suc 0)..<13] = [12]"
    unfolding numeral_2_eq_2[symmetric] by (rule boundary_2_13)
  from process_loop_zeros[OF r(4), of h 264 sc "fst r"]
  obtain z where z: "process_loop h (replicate 264 0) sc (fst r) (snd r) = Inr z"
    "m_image z = m_image d2" "m_skip z = [True]"
    by (auto simp add: r b)
  have dd: "m_cdgData dd = input" by (simp add: dd_def d0)
  have "process h u d0 = Inr (z\<lparr>m_cdgData := [], m_isOpen := True\<rparr>)"
    by (simp add: process_def Let_def dd_def[symmetric] dd unf z(1))
  moreover have "bits (m_image (z\<lparr>m_cdgData := [], m_isOpen := True\<rparr>)) 0 = 5"
    "m_skip (z\<lparr>m_cdgData := [], m_isOpen := True\<rparr>) = [True]"
    using z d2(2) by simp_all
  ultimately have "\<exists>d1 d'. readCdgSubcodePacket h sc dd = Inr d1 \<and> m_needupdate d1 \<and>
      process h u d0 = Inr d' \<and> bits (m_image d0) 0 = 0 \<and> bits (m_image d') 0 = 5 \<and>
      m_skip d' = [True]"
    using rd d2(1) d0(7) by blast
  then show ?thesis
    unfolding Let_def p1_def[symmetric] input_def[symmetric] d0_def[symmetric] p1(2)
      sc_def[symmetric] dd_def[symmetric] .
qed

subsection \<open>Duration\<close>

text \<open>
  Claim C3 says that \<^verbatim>\<open>duration()\<close> after \<^verbatim>\<open>process()\<close> is the packet count times 40 / 12.
  \<^verbatim>\<open>duration()\<close> is \<^verbatim>\<open>m_cdgData.size() * 40\<close> and \<^verbatim>\<open>process()\<close> ends with
  \<^verbatim>\<open>m_cdgData.clear()\<close>: whenever \<^verbatim>\<open>process()\<close> returns, the duration is 0 whatever the
  input was, as for the 12 packets of zero bytes, where the claim says 40.
\<close>

theorem duration_after_process:
  "process h uninit d = Inr d' \<Longrightarrow> duration d' = 0"
  by (auto simp add: duration_def process_def Let_def and_then_Inr_iff)

theorem duration_after_process_witness:
  "\<exists>d'. process cdg_format (\<lambda>i. 0) (fst (open_bytes (replicate 288 0) False CdgParser_new))
           = Inr d' \<and> duration d' = 0"
proof -
  define d0 where "d0 = fst (open_bytes (replicate 288 0) False CdgParser_new)"
  note d0 = open_bytes_state[of "replicate 288 0" CdgParser_new, folded d0_def]
  have "300 * m_curVOffset d0 + m_curHOffset d0 \<le> 3606" by (simp add: d0)
  from process_zeros[OF this d0(4), of cdg_format "\<lambda>i. 0"]
  obtain d' where ret: "process cdg_format (\<lambda>i. 0) d0 = Inr d'" ..
  from duration_after_process [OF ret] ret show ?thesis
    unfolding d0_def by blast
qed

subsection \<open>Frames by time\<close>

text \<open>
  Claim C4 says that \<^verbatim>\<open>videoFrameByTime(ms)\<close> returns the frame at index
  \<open>\<lceil>ms * tempo / 100 / 40\<rceil>\<close>. The code truncates the scaled quotient and adds one when
  \<^verbatim>\<open>ms % 40 > 0\<close>, a test on the unscaled time. With two frames, tempo 50 and
  \<open>ms = 40\<close>: the scaled quotient is 0.5, whose ceiling is 1, but 40 is a multiple of 40
  and the lookup returns frame 0.
\<close>

theorem frame_lookup_half_tempo:
  "videoFrameByTime (d\<lparr>m_tempo := 50, m_frames := [f0, f1]\<rparr>) 40 = Inr f0"
  by (simp add: videoFrameByTime_def half_tempo_rounding to_size_t_def truncate_def
      vector_size_def vector_at_def Let_def floor_half)

text \<open>
  Claim C10. On a decoder with no frames, \<^verbatim>\<open>videoFrameByTime\<close> never returns a frame,
  whatever the time and the tempo; when the tempo is not negative (so that the conversion
  of the index to \<^verbatim>\<open>size_t\<close> is defined) the call evaluates
  \<^verbatim>\<open>m_frames.at(m_frames.size() - 1)\<close>, an access at index \<open>2 ^ 64 - 1\<close> of the empty
  sequence, which throws.
\<close>

theorem frame_lookup_empty:
  assumes "m_frames d = []"
  shows "(\<forall>f. videoFrameByTime d ms \<noteq> Inr f) \<and>
         (0 \<le> sint (m_tempo d) \<longrightarrow> videoFrameByTime d ms = Inl (OutOfRange (2 ^ 64 - 1)))"
proof -
  define x where "x = to_double (to_double (of_nat (unat ms)
                    * to_double (to_float (of_int (sint (m_tempo d))) / 100)) / 40)"
  have v: "videoFrameByTime d ms =
      (case to_size_t x of Inl e \<Rightarrow> Inl e | Inr frameno0 \<Rightarrow> Inl (OutOfRange (2 ^ 64 - 1)))"
    by (simp add: videoFrameByTime_def x_def assms vector_size_def vector_at_def Let_def
        unat_max_64 split: sum.splits)
  have "\<forall>f. videoFrameByTime d ms \<noteq> Inr f"
    unfolding v by (simp split: sum.splits)
  moreover have "videoFrameByTime d ms = Inl (OutOfRange (2 ^ 64 - 1))" if "0 \<le> sint (m_tempo d)"
  proof -
    from frame_index_defined[OF that, of ms, folded x_def]
    have "to_size_t x = Inr (word_of_int (truncate x))"
      by (simp add: to_size_t_def)
    then show ?thesis unfolding v by simp
  qed
  ultimately show ?thesis by simp
qed

theorem frame_lookup_empty_witness:
  "m_frames CdgParser_new = [] \<and> 0 \<le> sint (m_tempo CdgParser_new) \<and>
   videoFrameByTime CdgParser_new 1000 = Inl (OutOfRange (2 ^ 64 - 1))"
  using frame_lookup_empty [of CdgParser_new 1000]
  by (simp add: CdgParser_new_def reset_def)

text \<open>
  Claim C5 says that \<^verbatim>\<open>canSkipFrameByTime\<close> never reads a skip flag out of bounds. Its
  only guard is \<^verbatim>\<open>frameno > m_frames.size()\<close>, and it then reads the flags at
  \<open>frameno - 1\<close>, \<open>frameno\<close> and \<open>frameno + 1\<close>. At \<open>ms = 0\<close> the index is 0 and the
  first read is at \<open>0 - 1\<close> in \<^verbatim>\<open>size_t\<close>: with three frames, all skippable, the call
  throws instead of returning true.
\<close>

theorem can_skip_at_zero:
  "canSkipFrameByTime (d\<lparr>m_frames := [f0, f1, f2], m_skip := [True, True, True]\<rparr>) 0
     = Inl (OutOfRange (2 ^ 64 - 1))"
  by (simp add: canSkipFrameByTime_def to_double_def rn_zero to_int_def truncate_def
      vector_size_def vector_at_def Let_def unat_max_64)

end
